theory Spec2Isabelle
  imports Main "HOL-Library.Word" "HOL-Library.Sublist"
begin

unbundle bit_operations_syntax

section \<open>GPUSAT device kernels (src/src/kernel.cu)\<close>

text \<open>
  The kernels work on \<^verbatim>\<open>long\<close> values and on \<^verbatim>\<open>double\<close> values stored in
  \<^verbatim>\<open>long\<close> words. A \<^verbatim>\<open>long\<close> that is a number (an assignment id, a variable id, a
  literal, a counter) is an \<^typ>\<open>int\<close>; loop counters and array lengths are \<^typ>\<open>nat\<close>;
  a \<^verbatim>\<open>long\<close> that is a memory word of a solution table is a \<^typ>\<open>64 word\<close>.

  One worker of a kernel launch is a function from the device state before it runs to the
  state after it; a launch runs its workers one after the other. The interleaving of
  workers on the device is outside this model. The source's \<^verbatim>\<open>id\<close> is written \<open>aid\<close>
  (the assignment id), since \<open>id\<close> is the identity function of HOL.
\<close>

subsection \<open>Memory faults\<close>

text \<open>
  A read or write outside an array, or through a null pointer, ends the worker with a
  fault: \<open>Inl\<close> of a sum. \<open>rd\<close> and \<open>wr\<close> are \<^verbatim>\<open>xs[i]\<close> and \<^verbatim>\<open>xs[i] = v\<close>.
\<close>

datatype fault = OutOfBounds | NullPointer

definition fbind :: "fault + 'a \<Rightarrow> ('a \<Rightarrow> fault + 'b) \<Rightarrow> fault + 'b" where
  "fbind m f = (case m of Inl e \<Rightarrow> Inl e | Inr x \<Rightarrow> f x)"

definition rd :: "'a list \<Rightarrow> int \<Rightarrow> fault + 'a" where
  "rd xs i = (if 0 \<le> i \<and> i < int (length xs) then Inr (xs ! nat i) else Inl OutOfBounds)"

definition wr :: "'a list \<Rightarrow> int \<Rightarrow> 'a \<Rightarrow> fault + 'a list" where
  "wr xs i v = (if 0 \<le> i \<and> i < int (length xs) then Inr (xs[nat i := v]) else Inl OutOfBounds)"

subsection \<open>Doubles\<close>

text \<open>
  A \<^verbatim>\<open>double\<close> is its IEEE-754 binary64 bit pattern, the word that
  \<^verbatim>\<open>__double_as_longlong\<close> gives and \<^verbatim>\<open>__longlong_as_double\<close> takes; both casts are
  the identity on it. The kernels compare doubles with zero only, and these comparisons
  are decided by the bit pattern: a NaN compares false with everything, and
  \<open>-0.0\<close> equals \<open>0.0\<close>.
\<close>

type_synonym double = "64 word"

definition d_zero :: double where "d_zero = 0"
definition d_one :: double where "d_one = 0x3FF0000000000000"
definition d_two :: double where "d_two = 0x4000000000000000"
definition d_half :: double where "d_half = 0x3FE0000000000000"
definition d_neg1 :: double where "d_neg1 = 0xBFF0000000000000"
definition d_four :: double where "d_four = 0x4010000000000000"
definition d_eight :: double where "d_eight = 0x4020000000000000"
definition d_quarter :: double where "d_quarter = 0x3FD0000000000000"

definition d_gt0 :: "double \<Rightarrow> bool" where
  "d_gt0 w = (w \<noteq> 0 \<and> w \<le> 0x7FF0000000000000)"

definition d_ge0 :: "double \<Rightarrow> bool" where
  "d_ge0 w = (w \<le> 0x7FF0000000000000 \<or> w = 0x8000000000000000)"

definition d_lt0 :: "double \<Rightarrow> bool" where
  "d_lt0 w = (0x8000000000000000 < w \<and> w \<le> 0xFFF0000000000000)"

definition d_eq0 :: "double \<Rightarrow> bool" where
  "d_eq0 w = (w = 0 \<or> w = 0x8000000000000000)"

text \<open>
  The arithmetic of the device (\<^verbatim>\<open>*\<close>, \<^verbatim>\<open>/\<close>, \<^verbatim>\<open>+\<close> on doubles and \<^verbatim>\<open>ilogb\<close>) is a
  parameter of every kernel function: the theorems hold for any arithmetic.
\<close>

record fpu =
  fp_mul :: "double \<Rightarrow> double \<Rightarrow> double"
  fp_div :: "double \<Rightarrow> double \<Rightarrow> double"
  fp_add :: "double \<Rightarrow> double \<Rightarrow> double"
  fp_ilogb :: "double \<Rightarrow> int"

subsection \<open>The trie: getCount and setCount\<close>

text \<open>
  \<^verbatim>\<open>((uint *) &tree[nextId])[k]\<close>: the two 32-bit halves of a word, the lower one at
  index 0 (the device is little-endian).
\<close>

definition half :: "64 word \<Rightarrow> bool \<Rightarrow> 32 word" where
  "half w k = (if k then ucast (drop_bit 32 w) else ucast w)"

definition set_half :: "64 word \<Rightarrow> bool \<Rightarrow> 32 word \<Rightarrow> 64 word" where
  "set_half w k v =
     (if k then (w AND 0xFFFFFFFF) OR push_bit 32 (ucast v)
      else (w AND 0xFFFFFFFF00000000) OR ucast v)"

text \<open>
  \<^verbatim>\<open>(id >> (numVars - i - 1)) & 1\<close> is bit \<open>numVars - i - 1\<close> of the id. The walk reads
  the words of the table without a check.
\<close>

function getCount_loop :: "int \<Rightarrow> 64 word list \<Rightarrow> nat \<Rightarrow> nat \<Rightarrow> nat \<Rightarrow> double" where
  "getCount_loop aid tree numVars i nextId =
     (if i < numVars then
        (let nextId' = unat (half (tree ! nextId) (bit aid (numVars - i - 1))) in
         if nextId' = 0 then d_zero
         else getCount_loop aid tree numVars (Suc i) nextId')
      else tree ! nextId)"
  by pat_completeness auto
termination
  by (relation "measure (\<lambda>(aid, tree, numVars, i, nextId). numVars - i)") auto

declare getCount_loop.simps [simp del]

definition getCount :: "int \<Rightarrow> 64 word list \<Rightarrow> nat \<Rightarrow> double" where
  "getCount aid tree numVars = getCount_loop aid tree numVars 0 0"

text \<open>
  \<^verbatim>\<open>setCount\<close>, one call run alone. \<^verbatim>\<open>atomicAdd(treeSize, 1) + 1\<close> is the counter after
  the increment; \<^verbatim>\<open>atomicCAS(lowVal, 0, val)\<close> stores the low 32 bits of \<open>val\<close> when
  the half-word is 0. The loop returns the table, the counter and \<open>nextId\<close>.
\<close>

function setCount_loop ::
  "int \<Rightarrow> nat \<Rightarrow> nat \<Rightarrow> 64 word list \<Rightarrow> int \<Rightarrow> nat \<Rightarrow> int \<Rightarrow> 64 word list \<times> int \<times> nat" where
  "setCount_loop aid numVars i tree treeSize nextId val =
     (if i < numVars then
        (let k = bit aid (numVars - i - 1);
             lowVal = half (tree ! nextId) k;
             secure = (val = 0 \<and> lowVal = 0);
             val1 = (if secure then treeSize + 1 else val);
             treeSize1 = (if secure then treeSize + 1 else treeSize);
             tree1 = (if lowVal = 0
                      then tree[nextId := set_half (tree ! nextId) k (word_of_int val1)]
                      else tree);
             lowVal1 = half (tree1 ! nextId) k;
             more = (uint lowVal1 = val1 \<and> i < numVars - 1);
             val2 = (if more then treeSize1 + 1 else val1);
             treeSize2 = (if more then treeSize1 + 1 else treeSize1)
         in setCount_loop aid numVars (Suc i) tree1 treeSize2 (unat lowVal1) val2)
      else (tree, treeSize, nextId))"
  by pat_completeness auto
termination
  by (relation "measure (\<lambda>(aid, numVars, i, tree, treeSize, nextId, val). numVars - i)") auto

declare setCount_loop.simps [simp del]

definition setCount ::
  "int \<Rightarrow> 64 word list \<Rightarrow> nat \<Rightarrow> int \<Rightarrow> double \<Rightarrow> 64 word list \<times> int" where
  "setCount aid tree numVars treeSize v =
     (let treeSize0 = (if numVars = 0 then treeSize + 1 else treeSize);
          (tree1, treeSize1, nextId) = setCount_loop aid numVars 0 tree treeSize0 0 0
      in (tree1[nextId := v], treeSize1))"

text \<open>
  One worker of \<^verbatim>\<open>combineTree\<close> (\<open>gid\<close> is \<^verbatim>\<open>get_global_id()\<close>), and a launch of
  \<open>threads\<close> workers. \<open>solutions_old\<close> is the source trie.
\<close>

definition combineTree ::
  "nat \<Rightarrow> 64 word list \<Rightarrow> 64 word list \<Rightarrow> int \<Rightarrow> int \<Rightarrow> int \<Rightarrow> int \<Rightarrow> 64 word list \<times> int" where
  "combineTree numVars tree solutions_old treeSize startId id_offset gid =
     (let aid = gid + id_offset;
          val = getCount (aid + startId) solutions_old numVars
      in if d_gt0 val then setCount (aid + startId) tree numVars treeSize val
         else (tree, treeSize))"

definition combineTree_launch ::
  "nat \<Rightarrow> 64 word list \<Rightarrow> 64 word list \<Rightarrow> int \<Rightarrow> int \<Rightarrow> int \<Rightarrow> nat \<Rightarrow> 64 word list \<times> int" where
  "combineTree_launch numVars tree solutions_old treeSize startId id_offset threads =
     fold (\<lambda>gid (t, s). combineTree numVars t solutions_old s startId id_offset (int gid))
       [0..<threads] (tree, treeSize)"

subsection \<open>solveIntroduce_\<close>

text \<open>
  The scan \<^verbatim>\<open>while (variables[a] != edgeVariables[b]) a++;\<close> for \<open>ev = edgeVariables[b]\<close>.
  The source has no bound on \<open>a\<close>: a scan that passes the end of \<open>variables\<close> reads
  outside it.
\<close>

function solveIntroduce_scan :: "int list \<Rightarrow> int \<Rightarrow> nat \<Rightarrow> fault + nat" where
  "solveIntroduce_scan variables ev a =
     (if a < length variables then
        (if variables ! a \<noteq> ev then solveIntroduce_scan variables ev (Suc a) else Inr a)
      else Inl OutOfBounds)"
  by pat_completeness auto
termination
  by (relation "measure (\<lambda>(variables, ev, a). length variables - a)") auto

declare solveIntroduce_scan.simps [simp del]

text \<open>
  The loop \<^verbatim>\<open>for (b = 0; b < numVE && a < numV; b++)\<close> that builds \<open>otherId\<close>, the id
  of the assignment in the child's ordering.
\<close>

function solveIntroduce_merge ::
  "nat \<Rightarrow> nat \<Rightarrow> int list \<Rightarrow> int list option \<Rightarrow> int \<Rightarrow> nat \<Rightarrow> nat \<Rightarrow> int \<Rightarrow> fault + int" where
  "solveIntroduce_merge numV numVE variables edgeVariables aid b a otherId =
     (if b < numVE \<and> a < numV then
        (case edgeVariables of
           None \<Rightarrow> Inl NullPointer
         | Some evs \<Rightarrow>
             (if b < length evs then
                (case solveIntroduce_scan variables (evs ! b) a of
                   Inl e \<Rightarrow> Inl e
                 | Inr a' \<Rightarrow>
                     solveIntroduce_merge numV numVE variables edgeVariables aid (Suc b) (Suc a')
                       (otherId OR push_bit b (drop_bit a' aid AND 1)))
              else Inl OutOfBounds))
      else Inr otherId)"
  by pat_completeness auto
termination
  by (relation "measure (\<lambda>(numV, numVE, variables, edgeVariables, aid, b, a, otherId).
        numVE - b)") auto

declare solveIntroduce_merge.simps [simp del]

text \<open>
  \<^verbatim>\<open>weights[((id >> a) & 1) > 0 ? variables[a] * 2 : variables[a] * 2 + 1]\<close>, the
  expression of the three weight loops.
\<close>

definition lit_weight :: "double list \<Rightarrow> int list \<Rightarrow> int \<Rightarrow> nat \<Rightarrow> fault + double" where
  "lit_weight weights variables aid a =
     fbind (rd variables (int a)) (\<lambda>v.
       rd weights (if drop_bit a aid AND 1 > 0 then v * 2 else v * 2 + 1))"

text \<open>
  The weight loop of \<^verbatim>\<open>solveIntroduce_\<close>: the weights of the variables of this bag that
  the child does not have.
\<close>

function solveIntroduce_weight ::
  "fpu \<Rightarrow> nat \<Rightarrow> nat \<Rightarrow> int list \<Rightarrow> int list option \<Rightarrow> double list \<Rightarrow> int \<Rightarrow> nat \<Rightarrow> nat \<Rightarrow>
   double \<Rightarrow> fault + double" where
  "solveIntroduce_weight U numV numVE variables edgeVariables weights aid a b weight =
     (if a < numV then
        (case edgeVariables of
           None \<Rightarrow>
             (case lit_weight weights variables aid a of
                Inl e \<Rightarrow> Inl e
              | Inr w \<Rightarrow>
                  solveIntroduce_weight U numV numVE variables edgeVariables weights aid (Suc a) b
                    (fp_mul U weight w))
         | Some evs \<Rightarrow>
             (case rd variables (int a) of
                Inl e \<Rightarrow> Inl e
              | Inr v \<Rightarrow>
                  (case rd evs (int b) of
                     Inl e \<Rightarrow> Inl e
                   | Inr ev \<Rightarrow>
                       (case (if v \<noteq> ev
                              then fbind (lit_weight weights variables aid a)
                                     (\<lambda>w. Inr (fp_mul U weight w))
                              else Inr weight) of
                          Inl e \<Rightarrow> Inl e
                        | Inr weight' \<Rightarrow>
                            solveIntroduce_weight U numV numVE variables edgeVariables weights aid
                              (Suc a) (if v = ev \<and> int b < int numVE - 1 then Suc b else b)
                              weight'))))
      else Inr weight)"
  by pat_completeness auto
termination
  by (relation "measure (\<lambda>(U, numV, numVE, variables, edgeVariables, weights, aid, a, b, weight).
        numV - a)") auto

declare solveIntroduce_weight.simps [simp del]

text \<open>
  \<open>array_type\<close> is the macro \<^verbatim>\<open>ARRAY_TYPE\<close>: the child table is an array when it is
  defined and a trie when it is not. A null \<open>edge\<close>, \<open>edgeVariables\<close> or \<open>weights\<close> is
  \<open>None\<close>. The function is the source's \<^verbatim>\<open>solveIntroduce_\<close> (a name cannot end in an
  underscore here).
\<close>

definition solveIntroduce_fn ::
  "fpu \<Rightarrow> bool \<Rightarrow> nat \<Rightarrow> 64 word list option \<Rightarrow> nat \<Rightarrow> int list \<Rightarrow> int list option \<Rightarrow> int \<Rightarrow> int \<Rightarrow>
   double list option \<Rightarrow> int \<Rightarrow> fault + double" where
  "solveIntroduce_fn U array_type numV edge numVE variables edgeVariables minId maxId weights aid =
     fbind (solveIntroduce_merge numV numVE variables edgeVariables aid 0 0 0) (\<lambda>otherId.
     fbind (case weights of
              None \<Rightarrow> Inr d_one
            | Some ws \<Rightarrow>
                solveIntroduce_weight U numV numVE variables edgeVariables ws aid 0 0 d_one)
       (\<lambda>weight.
          (case edge of
             Some e \<Rightarrow>
               (if minId \<le> otherId \<and> otherId < maxId then
                  (if array_type
                   then fbind (rd e (otherId - minId)) (\<lambda>x. Inr (fp_mul U x weight))
                   else Inr (fp_mul U (getCount otherId e numVE) weight))
                else Inr d_neg1)
           | None \<Rightarrow>
               (if minId \<le> otherId \<and> otherId < maxId then Inr d_zero else Inr d_neg1))))"

subsection \<open>checkBag\<close>

text \<open>
  \<^verbatim>\<open>1 << b\<close> in \<^verbatim>\<open>checkBag\<close>: the literal \<^verbatim>\<open>1\<close> is an \<^verbatim>\<open>int\<close>, so the shift is a
  32-bit one, and its result is sign-extended when it meets the \<^verbatim>\<open>long\<close> id in
  \<^verbatim>\<open>id & (1 << b)\<close>.
\<close>

definition shl1_int :: "nat \<Rightarrow> int" where
  "shl1_int b = sint (push_bit b (1 :: 32 word))"

text \<open>
  The innermost loop of \<^verbatim>\<open>checkBag\<close>, over the positions \<open>b\<close> of the bag, for the literal
  \<open>lit = clauses[varNum + a]\<close>. \<open>satC\<close> is the flag the loop leaves behind; a
  \<^verbatim>\<open>break\<close> ends the loop with \<open>satC = 1\<close>.
\<close>

function checkBag_pos :: "int \<Rightarrow> int \<Rightarrow> nat \<Rightarrow> int list \<Rightarrow> nat \<Rightarrow> bool \<Rightarrow> bool" where
  "checkBag_pos lit aid numV variables b satC =
     (if b < numV then
        (if lit = variables ! b \<or> lit = - (variables ! b) then
           (if lit < 0 then
              (if aid AND shl1_int b = 0 then True
               else checkBag_pos lit aid numV variables (Suc b) False)
            else
              (if aid AND shl1_int b > 0 then True
               else checkBag_pos lit aid numV variables (Suc b) False))
         else checkBag_pos lit aid numV variables (Suc b) satC)
      else satC)"
  by pat_completeness auto
termination
  by (relation "measure (\<lambda>(lit, aid, numV, variables, b, satC). numV - b)") auto

declare checkBag_pos.simps [simp del]

text \<open>The loop over the literals \<open>a\<close> of one clause: it stops at the first satisfied one.\<close>

function checkBag_clause ::
  "int list \<Rightarrow> nat \<Rightarrow> nat \<Rightarrow> int \<Rightarrow> nat \<Rightarrow> int list \<Rightarrow> nat \<Rightarrow> bool \<Rightarrow> bool" where
  "checkBag_clause clauses varNum len aid numV variables a satC =
     (if a < len \<and> \<not> satC then
        checkBag_clause clauses varNum len aid numV variables (Suc a)
          (checkBag_pos (clauses ! (varNum + a)) aid numV variables 0 True)
      else satC)"
  by pat_completeness auto
termination
  by (relation "measure (\<lambda>(clauses, varNum, len, aid, numV, variables, a, satC). len - a)") auto

declare checkBag_clause.simps [simp del]

text \<open>The loop over the clauses \<open>i\<close>; \<open>varNum\<close> is the offset of clause \<open>i\<close> in \<open>clauses\<close>.\<close>

function checkBag_loop ::
  "int list \<Rightarrow> nat list \<Rightarrow> nat \<Rightarrow> int \<Rightarrow> nat \<Rightarrow> int list \<Rightarrow> nat \<Rightarrow> nat \<Rightarrow> int" where
  "checkBag_loop clauses numVarsC numclauses aid numV variables i varNum =
     (if i < numclauses then
        (if \<not> checkBag_clause clauses varNum (numVarsC ! i) aid numV variables 0 False then 0
         else checkBag_loop clauses numVarsC numclauses aid numV variables (Suc i)
                (varNum + numVarsC ! i))
      else 1)"
  by pat_completeness auto
termination
  by (relation "measure (\<lambda>(clauses, numVarsC, numclauses, aid, numV, variables, i, varNum).
        numclauses - i)") auto

declare checkBag_loop.simps [simp del]

definition checkBag :: "int list \<Rightarrow> nat list \<Rightarrow> nat \<Rightarrow> int \<Rightarrow> nat \<Rightarrow> int list \<Rightarrow> int" where
  "checkBag clauses numVarsC numclauses aid numV variables =
     checkBag_loop clauses numVarsC numclauses aid numV variables 0 0"

subsection \<open>The state of a launch\<close>

text \<open>
  What a kernel writes: the solution table (\<^verbatim>\<open>solutions\<close> of \<^verbatim>\<open>solveJoin\<close>, \<^verbatim>\<open>solsF\<close> of
  \<^verbatim>\<open>solveIntroduceForget\<close>), the counter \<^verbatim>\<open>*sols\<close> and the cell \<^verbatim>\<open>*exponent\<close>.
  \<^verbatim>\<open>atomicAdd\<close>, \<^verbatim>\<open>atomicSub\<close> and \<^verbatim>\<open>atomicMax\<close> of one worker run alone are an addition,
  a subtraction and a maximum.
\<close>

record kstate =
  table :: "64 word list"
  sols :: int
  exponent :: int

text \<open>
  The loop \<^verbatim>\<open>for (a = 0; a < numV; a++) weight *= weights[...]\<close> of \<^verbatim>\<open>solveJoin\<close>, which
  is also the loop of the leaf case of \<^verbatim>\<open>solveIntroduceF\<close>.
\<close>

function weight_product ::
  "fpu \<Rightarrow> nat \<Rightarrow> int list \<Rightarrow> double list \<Rightarrow> int \<Rightarrow> nat \<Rightarrow> double \<Rightarrow> fault + double" where
  "weight_product U numV variables weights aid a weight =
     (if a < numV then
        (case lit_weight weights variables aid a of
           Inl e \<Rightarrow> Inl e
         | Inr w \<Rightarrow> weight_product U numV variables weights aid (Suc a) (fp_mul U weight w))
      else Inr weight)"
  by pat_completeness auto
termination
  by (relation "measure (\<lambda>(U, numV, variables, weights, aid, a, weight). numV - a)") auto

declare weight_product.simps [simp del]

subsection \<open>solveJoin\<close>

text \<open>
  The three branches of \<^verbatim>\<open>solveJoin\<close> (lines 372 to 421) on the slot
  \<open>slot = id - startIDNode\<close>; \<open>tmp\<close> comes from the first child and \<open>tmp2\<close> (the source's \<^verbatim>\<open>tmp_\<close>)
  from the second. \<open>no_exp\<close> is the macro \<^verbatim>\<open>NO_EXP\<close>.
\<close>

definition solveJoin_branch ::
  "fpu \<Rightarrow> bool \<Rightarrow> kstate \<Rightarrow> int \<Rightarrow> double \<Rightarrow> double \<Rightarrow> double \<Rightarrow> double \<Rightarrow> fault + kstate" where
  "solveJoin_branch U no_exp st slot tmp tmp2 val weight =
     (if d_ge0 tmp2 \<and> d_ge0 tmp then
        fbind (wr (table st) slot
                 (if no_exp then fp_div U (fp_mul U tmp2 tmp) weight
                  else fp_div U (fp_div U (fp_mul U tmp2 tmp) val) weight))
          (\<lambda>t. Inr (st\<lparr>table := t,
                        sols := (if d_gt0 tmp2 \<and> d_gt0 tmp then sols st + 1 else sols st)\<rparr>))
      else if d_ge0 tmp then
        fbind (rd (table st) slot) (\<lambda>oldVal.
          (let sols' = (if d_lt0 oldVal then (if d_gt0 tmp then sols st + 1 else sols st)
                        else if d_gt0 oldVal then (if d_eq0 tmp then sols st - 1 else sols st)
                        else sols st);
               oldVal' = (if d_lt0 oldVal then d_one else oldVal)
           in fbind (wr (table st) slot (fp_div U (fp_mul U tmp oldVal') weight))
                (\<lambda>t. Inr (st\<lparr>table := t, sols := sols'\<rparr>))))
      else if d_ge0 tmp2 then
        fbind (rd (table st) slot) (\<lambda>oldVal.
          (let sols' = (if d_lt0 oldVal then (if d_gt0 tmp2 then sols st + 1 else sols st)
                        else if d_gt0 oldVal then (if d_eq0 tmp2 then sols st - 1 else sols st)
                        else sols st);
               oldVal' = (if d_lt0 oldVal then d_one else oldVal)
           in fbind (wr (table st) slot
                       (if no_exp then fp_mul U tmp2 oldVal'
                        else fp_div U (fp_mul U tmp2 oldVal') val))
                (\<lambda>t. Inr (st\<lparr>table := t, sols := sols'\<rparr>))))
      else Inr st)"

text \<open>
  The lookup of one child (lines 354 to 363): \<open>-1.0\<close> when the child has no chunk
  (\<open>minId = -1\<close>), the result of \<^verbatim>\<open>solveIntroduce_\<close> otherwise.
\<close>

definition solveJoin_tmp ::
  "fpu \<Rightarrow> bool \<Rightarrow> nat \<Rightarrow> 64 word list option \<Rightarrow> nat \<Rightarrow> int list \<Rightarrow> int list option \<Rightarrow> int \<Rightarrow> int \<Rightarrow>
   double list option \<Rightarrow> int \<Rightarrow> fault + double" where
  "solveJoin_tmp U array_type numV edge numVE variables edgeVariables minId maxId weights aid =
     (if minId \<noteq> - 1
      then solveIntroduce_fn U array_type numV edge numVE variables edgeVariables minId maxId
             weights aid
      else Inr d_neg1)"

text \<open>The weight of the assignment (lines 364 to 369); 1.0 without weights.\<close>

definition solveJoin_weight ::
  "fpu \<Rightarrow> nat \<Rightarrow> int list \<Rightarrow> double list option \<Rightarrow> int \<Rightarrow> fault + double" where
  "solveJoin_weight U numV variables weights aid =
     (case weights of
        None \<Rightarrow> Inr d_one
      | Some ws \<Rightarrow> weight_product U numV variables ws aid 0 d_one)"

text \<open>
  One worker of \<^verbatim>\<open>solveJoin\<close>; \<open>gid\<close> is \<^verbatim>\<open>get_global_id()\<close> and \<open>val\<close> the parameter
  \<^verbatim>\<open>value\<close>. The parameters \<^verbatim>\<open>startIDEdge1\<close> and \<^verbatim>\<open>startIDEdge2\<close>, which the kernel
  never reads, are left out. The last step is the \<^verbatim>\<open>atomicMax\<close> of lines 422 to 424,
  compiled in when \<^verbatim>\<open>ARRAY_TYPE\<close> is defined and \<^verbatim>\<open>NO_EXP\<close> is not.
\<close>

definition solveJoin ::
  "fpu \<Rightarrow> bool \<Rightarrow> bool \<Rightarrow> kstate \<Rightarrow> 64 word list option \<Rightarrow> 64 word list option \<Rightarrow> int list \<Rightarrow>
   int list option \<Rightarrow> int list option \<Rightarrow> nat \<Rightarrow> nat \<Rightarrow> nat \<Rightarrow> int \<Rightarrow> int \<Rightarrow> int \<Rightarrow> int \<Rightarrow> int \<Rightarrow>
   double list option \<Rightarrow> double \<Rightarrow> int \<Rightarrow> int \<Rightarrow> int \<Rightarrow> fault + kstate" where
  "solveJoin U array_type no_exp st edge1 edge2 variables edgeVariables1 edgeVariables2
     numV numVE1 numVE2 minId1 maxId1 minId2 maxId2 startIDNode weights val id_offset max_id gid =
     (let aid = gid + id_offset in
      if aid \<ge> max_id then Inr st
      else
        fbind (solveJoin_tmp U array_type numV edge1 numVE1 variables edgeVariables1
                 minId1 maxId1 weights aid) (\<lambda>tmp.
        fbind (solveJoin_tmp U array_type numV edge2 numVE2 variables edgeVariables2
                 minId2 maxId2 weights aid) (\<lambda>tmp2.
        fbind (solveJoin_weight U numV variables weights aid) (\<lambda>weight.
        fbind (solveJoin_branch U no_exp st (aid - startIDNode) tmp tmp2 val weight) (\<lambda>st1.
          if array_type \<and> \<not> no_exp then
            fbind (rd (table st1) (aid - startIDNode)) (\<lambda>x.
              Inr (st1\<lparr>exponent := max (fp_ilogb U x) (exponent st1)\<rparr>))
          else Inr st1)))))"

text \<open>A launch: the workers \<open>0, \<dots>, threads - 1\<close>, one after the other, up to a fault.\<close>

fun launch :: "(kstate \<Rightarrow> int \<Rightarrow> fault + kstate) \<Rightarrow> nat list \<Rightarrow> kstate \<Rightarrow> fault + kstate" where
  "launch worker [] st = Inr st"
| "launch worker (g # gs) st =
     (case worker st (int g) of Inl e \<Rightarrow> Inl e | Inr st' \<Rightarrow> launch worker gs st')"

definition solveJoin_launch ::
  "fpu \<Rightarrow> bool \<Rightarrow> bool \<Rightarrow> kstate \<Rightarrow> 64 word list option \<Rightarrow> 64 word list option \<Rightarrow> int list \<Rightarrow>
   int list option \<Rightarrow> int list option \<Rightarrow> nat \<Rightarrow> nat \<Rightarrow> nat \<Rightarrow> int \<Rightarrow> int \<Rightarrow> int \<Rightarrow> int \<Rightarrow> int \<Rightarrow>
   double list option \<Rightarrow> double \<Rightarrow> int \<Rightarrow> int \<Rightarrow> nat \<Rightarrow> fault + kstate" where
  "solveJoin_launch U array_type no_exp st edge1 edge2 variables edgeVariables1 edgeVariables2
     numV numVE1 numVE2 minId1 maxId1 minId2 maxId2 startIDNode weights val id_offset max_id
     threads =
     launch (\<lambda>s gid. solveJoin U array_type no_exp s edge1 edge2 variables edgeVariables1
                       edgeVariables2 numV numVE1 numVE2 minId1 maxId1 minId2 maxId2 startIDNode
                       weights val id_offset max_id gid)
       [0..<threads] st"

subsection \<open>resize\<close>

text \<open>
  One worker of \<^verbatim>\<open>resize\<close> (lines 152 to 160), the kernel that moves the array that
  \<^verbatim>\<open>solveJoin\<close> wrote into a trie when \<^verbatim>\<open>ARRAY_TYPE\<close> is not defined. The field \<open>table\<close>
  is the trie and \<open>sols\<close> its node counter \<^verbatim>\<open>treeSize\<close>.
\<close>

definition resize ::
  "fpu \<Rightarrow> bool \<Rightarrow> nat \<Rightarrow> kstate \<Rightarrow> double list \<Rightarrow> int \<Rightarrow> int \<Rightarrow> int \<Rightarrow> fault + kstate" where
  "resize U no_exp numVars st solutions_old startId id_offset gid =
     (let aid = gid + id_offset in
      fbind (rd solutions_old aid) (\<lambda>x.
        if d_gt0 x then
          (let (t, ts) = setCount (aid + startId) (table st) numVars (sols st) x
           in Inr (st\<lparr>table := t, sols := ts,
                      exponent := (if no_exp then exponent st
                                   else max (fp_ilogb U x) (exponent st))\<rparr>))
        else Inr st))"

subsection \<open>solveIntroduceF and solveIntroduceForget\<close>

text \<open>
  The leaf case of \<^verbatim>\<open>solveIntroduceF\<close> (lines 465 to 472) is the weight loop of
  \<^verbatim>\<open>solveJoin\<close>, started at 1.0.
\<close>

definition solveIntroduceF ::
  "fpu \<Rightarrow> bool \<Rightarrow> int list \<Rightarrow> nat list \<Rightarrow> nat \<Rightarrow> nat \<Rightarrow> 64 word list option \<Rightarrow> nat \<Rightarrow> int list \<Rightarrow>
   int list option \<Rightarrow> int \<Rightarrow> int \<Rightarrow> double list option \<Rightarrow> int \<Rightarrow> fault + double" where
  "solveIntroduceF U array_type clauses numVarsC numclauses numV edge numVE variables
     edgeVariables minId maxId weights aid =
     fbind (case edge of
              Some e \<Rightarrow>
                solveIntroduce_fn U array_type numV edge numVE variables edgeVariables minId maxId
                  weights aid
            | None \<Rightarrow> solveJoin_weight U numV variables weights aid)
       (\<lambda>tmp.
          if d_gt0 tmp then
            (if checkBag clauses numVarsC numclauses aid numV variables \<noteq> 1 then Inr d_zero
             else Inr tmp)
          else Inr d_zero)"

text \<open>The loop that generates \<open>templateId\<close> (lines 538 to 543).\<close>

function solveIntroduceForget_template ::
  "int list \<Rightarrow> int list \<Rightarrow> nat \<Rightarrow> nat \<Rightarrow> int \<Rightarrow> nat \<Rightarrow> nat \<Rightarrow> int \<Rightarrow> fault + int" where
  "solveIntroduceForget_template varsI varsF numVI numVF aid i a templateId =
     (if i < numVI \<and> a < numVF then
        (case rd varsI (int i) of
           Inl e \<Rightarrow> Inl e
         | Inr vi \<Rightarrow>
             (case rd varsF (int a) of
                Inl e \<Rightarrow> Inl e
              | Inr vf \<Rightarrow>
                  (if vi = vf then
                     solveIntroduceForget_template varsI varsF numVI numVF aid (Suc i) (Suc a)
                       (templateId OR push_bit i (drop_bit a aid AND 1))
                   else
                     solveIntroduceForget_template varsI varsF numVI numVF aid (Suc i) a
                       templateId)))
      else Inr templateId)"
  by pat_completeness auto
termination
  by (relation "measure (\<lambda>(varsI, varsF, numVI, numVF, aid, i, a, templateId). numVI - i)") auto

declare solveIntroduceForget_template.simps [simp del]

text \<open>
  The inner loop over \<open>a\<close> (lines 548 to 554) that spreads the bits of the combination
  \<open>i\<close> over the positions of \<open>varsI\<close> that \<open>varsF\<close> does not have.
\<close>

function solveIntroduceForget_ext ::
  "int list \<Rightarrow> int list \<Rightarrow> nat \<Rightarrow> nat \<Rightarrow> int \<Rightarrow> nat \<Rightarrow> nat \<Rightarrow> int \<Rightarrow> fault + int" where
  "solveIntroduceForget_ext varsI varsF numVI numVF i a b otherId =
     (if a < numVI then
        (if b \<ge> numVF then
           solveIntroduceForget_ext varsI varsF numVI numVF i (Suc a) b
             (otherId OR push_bit a (drop_bit (a - b) i AND 1))
         else
           (case rd varsI (int a) of
              Inl e \<Rightarrow> Inl e
            | Inr vi \<Rightarrow>
                (case rd varsF (int b) of
                   Inl e \<Rightarrow> Inl e
                 | Inr vf \<Rightarrow>
                     (if vi \<noteq> vf then
                        solveIntroduceForget_ext varsI varsF numVI numVF i (Suc a) b
                          (otherId OR push_bit a (drop_bit (a - b) i AND 1))
                      else
                        solveIntroduceForget_ext varsI varsF numVI numVF i (Suc a) (Suc b)
                          otherId))))
      else Inr otherId)"
  by pat_completeness auto
termination
  by (relation "measure (\<lambda>(varsI, varsF, numVI, numVF, i, a, b, otherId). numVI - a)") auto

declare solveIntroduceForget_ext.simps [simp del]

text \<open>The loop over the \<open>combinations\<close> extensions (lines 546 to 556), summing into \<open>tmp\<close>.\<close>

function solveIntroduceForget_sum ::
  "fpu \<Rightarrow> bool \<Rightarrow> int list \<Rightarrow> 64 word list option \<Rightarrow> nat \<Rightarrow> int list option \<Rightarrow> nat \<Rightarrow> nat \<Rightarrow>
   int \<Rightarrow> int \<Rightarrow> nat \<Rightarrow> int list \<Rightarrow> int list \<Rightarrow> nat list \<Rightarrow> nat \<Rightarrow> double list option \<Rightarrow> int \<Rightarrow>
   nat \<Rightarrow> double \<Rightarrow> fault + double" where
  "solveIntroduceForget_sum U array_type varsF solsE numVE varsE combinations numVF
     minIdE maxIdE numVI varsI clauses numVarsC numclauses weights templateId i tmp =
     (if i < combinations then
        (case solveIntroduceForget_ext varsI varsF numVI numVF (int i) 0 0 templateId of
           Inl e \<Rightarrow> Inl e
         | Inr otherId \<Rightarrow>
             (case solveIntroduceF U array_type clauses numVarsC numclauses numVI solsE numVE
                     varsI varsE minIdE maxIdE weights otherId of
                Inl e \<Rightarrow> Inl e
              | Inr x \<Rightarrow>
                  solveIntroduceForget_sum U array_type varsF solsE numVE varsE combinations numVF
                    minIdE maxIdE numVI varsI clauses numVarsC numclauses weights templateId
                    (Suc i) (fp_add U tmp x)))
      else Inr tmp)"
  by pat_completeness auto
termination
  by (relation "measure (\<lambda>(U, array_type, varsF, solsE, numVE, varsE, combinations, numVF,
        minIdE, maxIdE, numVI, varsI, clauses, numVarsC, numclauses, weights, templateId, i, tmp).
        combinations - i)") auto

declare solveIntroduceForget_sum.simps [simp del]

text \<open>
  The write that ends both branches of \<^verbatim>\<open>solveIntroduceForget\<close> (lines 557 to 578 and 582
  to 603, the same text twice). With a trie, \<^verbatim>\<open>setCount\<close> takes \<^verbatim>\<open>sols\<close> as the node
  counter of the trie.
\<close>

definition solveIntroduceForget_write ::
  "fpu \<Rightarrow> bool \<Rightarrow> bool \<Rightarrow> kstate \<Rightarrow> nat \<Rightarrow> int \<Rightarrow> double \<Rightarrow> int \<Rightarrow> double \<Rightarrow> fault + kstate" where
  "solveIntroduceForget_write U array_type no_exp st numVF startIDF val aid tmp =
     (if d_gt0 tmp then
        (if array_type then
           fbind (rd (table st) (aid - startIDF)) (\<lambda>last.
             (let v = (if no_exp then fp_add U tmp last else fp_add U (fp_div U tmp val) last)
              in fbind (wr (table st) (aid - startIDF) v) (\<lambda>t.
                   Inr (st\<lparr>table := t, sols := sols st + 1,
                           exponent := (if no_exp then exponent st
                                        else max (fp_ilogb U v) (exponent st))\<rparr>))))
         else
           (let last = getCount aid (table st) numVF;
                v = (if no_exp then fp_add U tmp last else fp_add U (fp_div U tmp val) last);
                (t, ts) = setCount aid (table st) numVF (sols st) v
            in Inr (st\<lparr>table := t, sols := ts,
                       exponent := (if no_exp then exponent st
                                    else max (fp_ilogb U v) (exponent st))\<rparr>)))
      else Inr st)"

text \<open>
  One worker of \<^verbatim>\<open>solveIntroduceForget\<close>. The parameter \<^verbatim>\<open>startIDE\<close>, which the kernel
  never reads, is left out.
\<close>

definition solveIntroduceForget ::
  "fpu \<Rightarrow> bool \<Rightarrow> bool \<Rightarrow> kstate \<Rightarrow> int list \<Rightarrow> 64 word list option \<Rightarrow> nat \<Rightarrow> int list option \<Rightarrow>
   nat \<Rightarrow> nat \<Rightarrow> int \<Rightarrow> int \<Rightarrow> int \<Rightarrow> nat \<Rightarrow> int list \<Rightarrow> int list \<Rightarrow> nat list \<Rightarrow> nat \<Rightarrow>
   double list option \<Rightarrow> double \<Rightarrow> int \<Rightarrow> int \<Rightarrow> int \<Rightarrow> fault + kstate" where
  "solveIntroduceForget U array_type no_exp st varsF solsE numVE varsE combinations numVF
     minIdE maxIdE startIDF numVI varsI clauses numVarsC numclauses weights val id_offset max_id
     gid =
     (let aid = gid + id_offset in
      if aid \<ge> max_id then Inr st
      else if numVI \<noteq> numVF then
        fbind (solveIntroduceForget_template varsI varsF numVI numVF aid 0 0 0) (\<lambda>templateId.
        fbind (solveIntroduceForget_sum U array_type varsF solsE numVE varsE combinations numVF
                 minIdE maxIdE numVI varsI clauses numVarsC numclauses weights templateId 0
                 d_zero) (\<lambda>tmp.
          solveIntroduceForget_write U array_type no_exp st numVF startIDF val aid tmp))
      else
        fbind (solveIntroduceF U array_type clauses numVarsC numclauses numVI solsE numVE varsI
                 varsE minIdE maxIdE weights aid) (\<lambda>tmp.
          solveIntroduceForget_write U array_type no_exp st numVF startIDF val aid tmp))"

text \<open>
  The sum \<open>tmp\<close> that a worker with \<open>id < max_id\<close> has when it reaches its write (lines
  535 to 556, and line 581 when there is no forgotten variable), and the value
  \<open>tmp / value + last\<close> that the write of the kernel with the exponent stores; \<open>last\<close> is
  read from the table at that moment.
\<close>

definition solveIntroduceForget_tmp ::
  "fpu \<Rightarrow> bool \<Rightarrow> int list \<Rightarrow> 64 word list option \<Rightarrow> nat \<Rightarrow> int list option \<Rightarrow> nat \<Rightarrow> nat \<Rightarrow>
   int \<Rightarrow> int \<Rightarrow> nat \<Rightarrow> int list \<Rightarrow> int list \<Rightarrow> nat list \<Rightarrow> nat \<Rightarrow> double list option \<Rightarrow> int \<Rightarrow>
   fault + double" where
  "solveIntroduceForget_tmp U array_type varsF solsE numVE varsE combinations numVF
     minIdE maxIdE numVI varsI clauses numVarsC numclauses weights aid =
     (if numVI \<noteq> numVF then
        fbind (solveIntroduceForget_template varsI varsF numVI numVF aid 0 0 0) (\<lambda>templateId.
          solveIntroduceForget_sum U array_type varsF solsE numVE varsE combinations numVF
            minIdE maxIdE numVI varsI clauses numVarsC numclauses weights templateId 0 d_zero)
      else
        solveIntroduceF U array_type clauses numVarsC numclauses numVI solsE numVE varsI
          varsE minIdE maxIdE weights aid)"

definition solveIntroduceForget_value ::
  "fpu \<Rightarrow> bool \<Rightarrow> kstate \<Rightarrow> nat \<Rightarrow> int \<Rightarrow> double \<Rightarrow> int \<Rightarrow> double \<Rightarrow> double" where
  "solveIntroduceForget_value U array_type st numVF startIDF val aid tmp =
     fp_add U (fp_div U tmp val)
       (if array_type then table st ! nat (aid - startIDF) else getCount aid (table st) numVF)"

definition solveIntroduceForget_launch ::
  "fpu \<Rightarrow> bool \<Rightarrow> bool \<Rightarrow> kstate \<Rightarrow> int list \<Rightarrow> 64 word list option \<Rightarrow> nat \<Rightarrow> int list option \<Rightarrow>
   nat \<Rightarrow> nat \<Rightarrow> int \<Rightarrow> int \<Rightarrow> int \<Rightarrow> nat \<Rightarrow> int list \<Rightarrow> int list \<Rightarrow> nat list \<Rightarrow> nat \<Rightarrow>
   double list option \<Rightarrow> double \<Rightarrow> int \<Rightarrow> int \<Rightarrow> nat \<Rightarrow> fault + kstate" where
  "solveIntroduceForget_launch U array_type no_exp st varsF solsE numVE varsE combinations numVF
     minIdE maxIdE startIDF numVI varsI clauses numVarsC numclauses weights val id_offset max_id
     threads =
     launch (\<lambda>s gid. solveIntroduceForget U array_type no_exp s varsF solsE numVE varsE
                       combinations numVF minIdE maxIdE startIDF numVI varsI clauses numVarsC
                       numclauses weights val id_offset max_id gid)
       [0..<threads] st"

subsection \<open>IEEE-754 binary64 arithmetic\<close>

text \<open>
  The arithmetic of the device on bit patterns, with rounding to nearest, ties to even;
  it is the arithmetic at which the kernels are evaluated on concrete inputs. A finite
  double is \<open>\<plusminus> d_mant * 2 ^ d_scale\<close>. Every NaN result is the one quiet NaN
  \<open>d_qnan\<close> (the kernels never look at the payload of a NaN).
\<close>

definition d_sign :: "double \<Rightarrow> bool" where
  "d_sign w = bit w 63"

definition d_expo :: "double \<Rightarrow> int" where
  "d_expo w = uint (take_bit 11 (drop_bit 52 w))"

definition d_frac :: "double \<Rightarrow> int" where
  "d_frac w = uint (take_bit 52 w)"

definition d_nan :: "double \<Rightarrow> bool" where
  "d_nan w = (d_expo w = 2047 \<and> d_frac w \<noteq> 0)"

definition d_inf :: "double \<Rightarrow> bool" where
  "d_inf w = (d_expo w = 2047 \<and> d_frac w = 0)"

definition d_mant :: "double \<Rightarrow> int" where
  "d_mant w = (if d_expo w = 0 then d_frac w else 4503599627370496 + d_frac w)"

definition d_scale :: "double \<Rightarrow> int" where
  "d_scale w = (if d_expo w = 0 then - 1074 else d_expo w - 1075)"

definition d_qnan :: double where
  "d_qnan = 0x7FF8000000000000"

definition d_signed :: "bool \<Rightarrow> double \<Rightarrow> double" where
  "d_signed s w = (if s then w OR 0x8000000000000000 else w)"

definition d_infinity :: double where
  "d_infinity = 0x7FF0000000000000"

text \<open>The number of bits of \<open>n\<close>.\<close>

function nbits :: "int \<Rightarrow> int" where
  "nbits n = (if n \<le> 0 then 0 else 1 + nbits (n div 2))"
  by pat_completeness auto
termination
  by (relation "measure (\<lambda>n. nat n)") auto

declare nbits.simps [simp del]

text \<open>
  \<open>d_pack s m e sticky\<close> rounds \<open>\<plusminus> (m + \<epsilon>) * 2 ^ e\<close> to a double, for \<open>m > 0\<close>; \<open>\<epsilon>\<close> is 0,
  or a value strictly between 0 and 1 when \<open>sticky\<close> holds (the caller then gives an \<open>m\<close>
  of more than 54 bits).
\<close>

definition d_encode :: "bool \<Rightarrow> int \<Rightarrow> int \<Rightarrow> double" where
  "d_encode s m e =
     (let bits = m + (e + 1074) * 4503599627370496
      in if bits \<ge> 0x7FF0000000000000 then d_signed s d_infinity
         else d_signed s (word_of_int bits))"

definition d_pack :: "bool \<Rightarrow> int \<Rightarrow> int \<Rightarrow> bool \<Rightarrow> double" where
  "d_pack s m e sticky =
     (let l = nbits m;
          sh = max (l - 53) (- 1074 - e)
      in if sh \<le> 0 then
           (let shl = min (53 - l) (e + 1074)
            in d_encode s (push_bit (nat shl) m) (e - shl))
         else
           (let q = drop_bit (nat sh) m;
                r = take_bit (nat sh) m;
                h = push_bit (nat (sh - 1)) 1;
                up = (r > h \<or> (r = h \<and> (sticky \<or> odd q)))
            in d_encode s (if up then q + 1 else q) (e + sh)))"

definition ieee_mul :: "double \<Rightarrow> double \<Rightarrow> double" where
  "ieee_mul x y =
     (if d_nan x \<or> d_nan y then d_qnan
      else
        (let s = (d_sign x \<noteq> d_sign y) in
         if d_inf x \<or> d_inf y then
           (if d_mant x = 0 \<or> d_mant y = 0 then d_qnan else d_signed s d_infinity)
         else if d_mant x = 0 \<or> d_mant y = 0 then d_signed s 0
         else d_pack s (d_mant x * d_mant y) (d_scale x + d_scale y) False))"

definition ieee_div :: "double \<Rightarrow> double \<Rightarrow> double" where
  "ieee_div x y =
     (if d_nan x \<or> d_nan y then d_qnan
      else
        (let s = (d_sign x \<noteq> d_sign y) in
         if d_inf x then (if d_inf y then d_qnan else d_signed s d_infinity)
         else if d_inf y then d_signed s 0
         else if d_mant y = 0 then (if d_mant x = 0 then d_qnan else d_signed s d_infinity)
         else if d_mant x = 0 then d_signed s 0
         else
           (let n = push_bit 110 (d_mant x)
            in d_pack s (n div d_mant y) (d_scale x - d_scale y - 110)
                 (n mod d_mant y \<noteq> 0))))"

definition ieee_add :: "double \<Rightarrow> double \<Rightarrow> double" where
  "ieee_add x y =
     (if d_nan x \<or> d_nan y then d_qnan
      else if d_inf x then (if d_inf y \<and> d_sign x \<noteq> d_sign y then d_qnan else x)
      else if d_inf y then y
      else
        (let e = min (d_scale x) (d_scale y);
             a = (if d_sign x then - 1 else 1) * push_bit (nat (d_scale x - e)) (d_mant x);
             b = (if d_sign y then - 1 else 1) * push_bit (nat (d_scale y - e)) (d_mant y);
             t = a + b
         in if t = 0 then d_signed (d_sign x \<and> d_sign y) 0
            else d_pack (t < 0) \<bar>t\<bar> e False))"

text \<open>
  \<^verbatim>\<open>ilogb\<close> of the device library: the exponent of a finite non-zero double,
  \<^verbatim>\<open>INT_MIN\<close> for a zero or a NaN, \<^verbatim>\<open>INT_MAX\<close> for an infinity.
\<close>

definition ieee_ilogb :: "double \<Rightarrow> int" where
  "ieee_ilogb w =
     (if d_nan w then - 2147483648
      else if d_inf w then 2147483647
      else if d_mant w = 0 then - 2147483648
      else nbits (d_mant w) - 1 + d_scale w)"

definition ieee :: fpu where
  "ieee = \<lparr>fp_mul = ieee_mul, fp_div = ieee_div, fp_add = ieee_add, fp_ilogb = ieee_ilogb\<rparr>"

section \<open>Notions used in the statements\<close>

subsection \<open>Literals and clauses of checkBag\<close>

text \<open>
  \<open>lit_match\<close> is the comparison of lines 280 and 281 and \<open>lit_test\<close> the test of lines
  283 to 295, as the code computes it. A literal is \<open>in_bag\<close> when it matches a position
  of the bag, and \<open>lit_ok\<close> when \<^verbatim>\<open>checkBag\<close> takes it as satisfied. Clause \<open>i\<close> starts at
  \<open>clause_offset numVarsC i\<close> in the flat array of literals.
\<close>

definition lit_match :: "int \<Rightarrow> int list \<Rightarrow> nat \<Rightarrow> bool" where
  "lit_match lit variables b = (lit = variables ! b \<or> lit = - (variables ! b))"

definition lit_test :: "int \<Rightarrow> int \<Rightarrow> nat \<Rightarrow> bool" where
  "lit_test lit aid b = (if lit < 0 then aid AND shl1_int b = 0 else aid AND shl1_int b > 0)"

definition in_bag :: "int list \<Rightarrow> nat \<Rightarrow> int \<Rightarrow> bool" where
  "in_bag variables numV lit = (\<exists>b<numV. lit_match lit variables b)"

definition lit_ok :: "int list \<Rightarrow> nat \<Rightarrow> int \<Rightarrow> int \<Rightarrow> bool" where
  "lit_ok variables numV aid lit =
     ((\<exists>b<numV. lit_match lit variables b \<and> lit_test lit aid b) \<or> \<not> in_bag variables numV lit)"

definition clause_offset :: "nat list \<Rightarrow> nat \<Rightarrow> nat" where
  "clause_offset numVarsC i = sum_list (take i numVarsC)"

text \<open>
  The specification's notion: a literal is satisfied by an id iff it is positive and the
  bit at its position is 1, or negative and the bit at its position is 0.
\<close>

definition spec_lit_satisfied :: "int list \<Rightarrow> nat \<Rightarrow> int \<Rightarrow> int \<Rightarrow> bool" where
  "spec_lit_satisfied variables numV aid lit =
     (\<exists>b<numV. lit_match lit variables b \<and> ((lit > 0 \<and> bit aid b) \<or> (lit < 0 \<and> \<not> bit aid b)))"

subsection \<open>Well-formed tries\<close>

text \<open>
  \<open>child t x k\<close> is the child index that node \<open>x\<close> holds for the bit \<open>k\<close>, and
  \<open>nodes t d x\<close> lists the nodes of the sub-trie of depth \<open>d\<close> under node \<open>x\<close>. A table
  is a well-formed trie of \<open>numVars\<close> levels with node counter \<open>treeSize\<close> when no node is
  reached by two paths from the root, every node is inside the table and at most
  \<open>treeSize\<close>, and the words after \<open>treeSize\<close> are still zero (the allocator hands out
  \<open>treeSize + 1\<close> next and relies on fresh words being zero).
\<close>

definition child :: "64 word list \<Rightarrow> nat \<Rightarrow> bool \<Rightarrow> nat" where
  "child t x k = unat (half (t ! x) k)"

fun nodes :: "64 word list \<Rightarrow> nat \<Rightarrow> nat \<Rightarrow> nat list" where
  "nodes t 0 x = [x]"
| "nodes t (Suc d) x =
     x # (if child t x False = 0 then [] else nodes t d (child t x False))
       @ (if child t x True = 0 then [] else nodes t d (child t x True))"

definition trie_wf :: "nat \<Rightarrow> 64 word list \<Rightarrow> int \<Rightarrow> bool" where
  "trie_wf numVars t treeSize =
     (0 \<le> treeSize \<and> distinct (nodes t numVars 0)
      \<and> list_all (\<lambda>x. int x \<le> treeSize \<and> x < length t) (nodes t numVars 0)
      \<and> list_all (\<lambda>w. w = 0) (drop (nat treeSize + 1) t))"

text \<open>
  The walk of \<^verbatim>\<open>getCount\<close> from node \<open>x\<close> with \<open>d\<close> levels to go, by recursion on \<open>d\<close>;
  \<open>getCount_loop\<close> at step \<open>i\<close> is \<open>getCount_from\<close> with \<open>numVars - i\<close> levels to go.
\<close>

fun getCount_from :: "64 word list \<Rightarrow> int \<Rightarrow> nat \<Rightarrow> nat \<Rightarrow> double" where
  "getCount_from t aid 0 x = t ! x"
| "getCount_from t aid (Suc d) x =
     (if child t x (bit aid d) = 0 then d_zero
      else getCount_from t aid d (child t x (bit aid d)))"

text \<open>
  The node that the walk of \<^verbatim>\<open>getCount\<close> is at after \<open>i\<close> steps; \<open>None\<close> once it has met a
  child index 0.
\<close>

fun path_node :: "64 word list \<Rightarrow> int \<Rightarrow> nat \<Rightarrow> nat \<Rightarrow> nat option" where
  "path_node t aid numVars 0 = Some 0"
| "path_node t aid numVars (Suc i) =
     (case path_node t aid numVars i of
        None \<Rightarrow> None
      | Some x \<Rightarrow>
          (if child t x (bit aid (numVars - i - 1)) = 0 then None
           else Some (child t x (bit aid (numVars - i - 1)))))"

text \<open>
  The number of nodes that \<^verbatim>\<open>setCount\<close> adds for the id \<open>aid\<close> below node \<open>x\<close>, with
  \<open>d\<close> levels to go: every level from the first child index 0 on the walk downwards.
\<close>

fun missing_nodes :: "64 word list \<Rightarrow> int \<Rightarrow> nat \<Rightarrow> nat \<Rightarrow> nat" where
  "missing_nodes t aid 0 x = 0"
| "missing_nodes t aid (Suc d) x =
     (if child t x (bit aid d) = 0 then Suc d
      else missing_nodes t aid d (child t x (bit aid d)))"

text \<open>
  A launch of \<^verbatim>\<open>combineTree\<close> has room when every worker that inserts finds, in the state
  that the workers before it leave, the table long enough for the nodes that its walk
  adds, with indices that fit the 32-bit halves of a word. (With \<open>numVars = 0\<close> the one
  node is the root and nothing is added.)
\<close>

definition combineTree_room ::
  "nat \<Rightarrow> 64 word list \<Rightarrow> 64 word list \<Rightarrow> int \<Rightarrow> int \<Rightarrow> int \<Rightarrow> nat \<Rightarrow> bool" where
  "combineTree_room numVars tree solutions_old treeSize startId id_offset threads =
     list_all
       (\<lambda>g. case combineTree_launch numVars tree solutions_old treeSize startId id_offset g of
              (t, ts) \<Rightarrow>
                d_gt0 (getCount (int g + id_offset + startId) solutions_old numVars) \<longrightarrow>
                numVars = 0 \<or>
                (ts + int (missing_nodes t (int g + id_offset + startId) numVars 0)
                   < int (length t)
                 \<and> ts + int (missing_nodes t (int g + id_offset + startId) numVars 0) < 2 ^ 32))
       [0..<threads]"

section \<open>Properties\<close>

subsection \<open>checkBag\<close>

lemma checkBag_pos_step:
  "b < numV \<Longrightarrow> checkBag_pos lit aid numV variables b satC =
     (if lit_match lit variables b then
        (if lit_test lit aid b then True else checkBag_pos lit aid numV variables (Suc b) False)
      else checkBag_pos lit aid numV variables (Suc b) satC)"
  by (subst checkBag_pos.simps) (simp add: lit_match_def lit_test_def)

lemma checkBag_pos_char:
  "checkBag_pos lit aid numV variables b satC =
     ((\<exists>b'. b \<le> b' \<and> b' < numV \<and> lit_match lit variables b' \<and> lit_test lit aid b') \<or>
      ((\<forall>b'. b \<le> b' \<and> b' < numV \<longrightarrow> \<not> lit_match lit variables b') \<and> satC))"
proof (induction lit aid numV variables b satC rule: checkBag_pos.induct)
  case (1 lit aid numV variables b satC)
  show ?case
  proof (cases "b < numV")
    case False
    then show ?thesis by (subst checkBag_pos.simps) auto
  next
    case True
    have e: "\<And>b'. (b \<le> b') = (b' = b \<or> Suc b \<le> b')" by arith
    have split: "\<And>P. (\<exists>b'. b \<le> b' \<and> b' < numV \<and> P b') = (P b \<or> (\<exists>b'. Suc b \<le> b' \<and> b' < numV \<and> P b'))"
      by (subst e) (use True in blast)
    have splitA: "\<And>P. (\<forall>b'. b \<le> b' \<and> b' < numV \<longrightarrow> P b') = (P b \<and> (\<forall>b'. Suc b \<le> b' \<and> b' < numV \<longrightarrow> P b'))"
      by (subst e) (use True in blast)
    show ?thesis
    proof (cases "lit_match lit variables b")
      case m: True
      show ?thesis
      proof (cases "lit_test lit aid b")
        case t: True
        show ?thesis unfolding checkBag_pos_step[OF True] split splitA using m t by simp
      next
        case t: False
        have ih: "checkBag_pos lit aid numV variables (Suc b) False = 
          ((\<exists>b'. Suc b \<le> b' \<and> b' < numV \<and> lit_match lit variables b' \<and> lit_test lit aid b') \<or>
      ((\<forall>b'. Suc b \<le> b' \<and> b' < numV \<longrightarrow> \<not> lit_match lit variables b') \<and> False))"
          using 1 True m t unfolding lit_match_def lit_test_def by (cases "lit < 0") auto
        show ?thesis unfolding checkBag_pos_step[OF True] split splitA ih using m t by simp
      qed
    next
      case m: False
      have ih: "checkBag_pos lit aid numV variables (Suc b) satC = 
          ((\<exists>b'. Suc b \<le> b' \<and> b' < numV \<and> lit_match lit variables b' \<and> lit_test lit aid b') \<or>
      ((\<forall>b'. Suc b \<le> b' \<and> b' < numV \<longrightarrow> \<not> lit_match lit variables b') \<and> satC))"
        using 1(3) True m unfolding lit_match_def by blast
      show ?thesis unfolding checkBag_pos_step[OF True] split splitA ih using m by simp
    qed
  qed
qed

lemma checkBag_pos_lit_ok:
  "checkBag_pos lit aid numV variables 0 True = lit_ok variables numV aid lit"
  unfolding checkBag_pos_char lit_ok_def in_bag_def by auto

lemma checkBag_clause_step:
  "checkBag_clause clauses varNum len aid numV variables a satC =
     (if a < len \<and> \<not> satC then
        checkBag_clause clauses varNum len aid numV variables (Suc a)
          (lit_ok variables numV aid (clauses ! (varNum + a)))
      else satC)"
  by (subst checkBag_clause.simps) (simp only: checkBag_pos_lit_ok)

lemma checkBag_clause_char:
  "checkBag_clause clauses varNum len aid numV variables a satC =
     (satC \<or> (\<exists>a'. a \<le> a' \<and> a' < len \<and> lit_ok variables numV aid (clauses ! (varNum + a'))))"
proof (induction "len - a" arbitrary: a satC)
  case 0
  then have "\<not> a < len" by simp
  then show ?case by (subst checkBag_clause_step) auto
next
  case (Suc n)
  then have lt: "a < len" by simp
  show ?case
  proof (cases satC)
    case True
    then show ?thesis by (subst checkBag_clause_step) simp
  next
    case False
    have e: "\<And>a'. (a \<le> a') = (a' = a \<or> Suc a \<le> a')" by arith
    have split: "\<And>P. (\<exists>a'. a \<le> a' \<and> a' < len \<and> P a') = (P a \<or> (\<exists>a'. Suc a \<le> a' \<and> a' < len \<and> P a'))"
      by (subst e) (use lt in blast)
    have ih: "checkBag_clause clauses varNum len aid numV variables (Suc a)
            (lit_ok variables numV aid (clauses ! (varNum + a))) =
        (lit_ok variables numV aid (clauses ! (varNum + a)) \<or>
         (\<exists>a'. Suc a \<le> a' \<and> a' < len \<and> lit_ok variables numV aid (clauses ! (varNum + a'))))"
      using Suc.hyps(1)[of "Suc a"] Suc.hyps(2) by simp
    show ?thesis
      by (subst checkBag_clause_step) (simp only: lt False ih split simp_thms if_True)
  qed
qed

lemma checkBag_loop_step:
  "checkBag_loop clauses numVarsC numclauses aid numV variables i varNum =
     (if i < numclauses then
        (if \<not> (\<exists>a<numVarsC ! i. lit_ok variables numV aid (clauses ! (varNum + a))) then 0
         else checkBag_loop clauses numVarsC numclauses aid numV variables (Suc i)
                (varNum + numVarsC ! i))
      else 1)"
  by (subst checkBag_loop.simps) (simp only: checkBag_clause_char simp_thms le0)

lemma checkBag_loop_char:
  "i \<le> numclauses \<Longrightarrow> numclauses \<le> length numVarsC \<Longrightarrow>
   checkBag_loop clauses numVarsC numclauses aid numV variables i (clause_offset numVarsC i) =
     (if \<forall>j. i \<le> j \<and> j < numclauses \<longrightarrow>
              (\<exists>a<numVarsC ! j. lit_ok variables numV aid (clauses ! (clause_offset numVarsC j + a)))
      then 1 else 0)"
proof (induction "numclauses - i" arbitrary: i)
  case 0
  then have "\<not> i < numclauses" by simp
  then show ?case by (subst checkBag_loop_step) auto
next
  case (Suc n)
  then have lt: "i < numclauses" by simp
  have off: "clause_offset numVarsC i + numVarsC ! i = clause_offset numVarsC (Suc i)"
    using lt Suc.prems by (simp add: clause_offset_def take_Suc_conv_app_nth)
  have ih: "checkBag_loop clauses numVarsC numclauses aid numV variables (Suc i) (clause_offset numVarsC (Suc i)) =
     (if \<forall>j. Suc i \<le> j \<and> j < numclauses \<longrightarrow>
              (\<exists>a<numVarsC ! j. lit_ok variables numV aid (clauses ! (clause_offset numVarsC j + a)))
      then 1 else 0)"
    using Suc.hyps(1)[of "Suc i"] Suc.hyps(2) lt Suc.prems by simp
  have e: "\<And>j. (i \<le> j) = (j = i \<or> Suc i \<le> j)" by arith
  have splitA: "\<And>P. (\<forall>j. i \<le> j \<and> j < numclauses \<longrightarrow> P j) = (P i \<and> (\<forall>j. Suc i \<le> j \<and> j < numclauses \<longrightarrow> P j))"
    by (subst e) (use lt in blast)
  show ?case
    apply (subst checkBag_loop_step)
    apply (subst splitA)
    apply (simp only: lt if_True off ih)
    apply (simp only: if_distrib if_bool_eq_conj simp_thms split: if_splits)
    apply blast
    done
qed

lemma checkBag_char:
  "numclauses \<le> length numVarsC \<Longrightarrow>
   checkBag clauses numVarsC numclauses aid numV variables =
     (if \<forall>i<numclauses. \<exists>a<numVarsC ! i.
            lit_ok variables numV aid (clauses ! (clause_offset numVarsC i + a))
      then 1 else 0)"
  unfolding checkBag_def
  using checkBag_loop_char[of 0 numclauses numVarsC clauses aid numV variables]
  by (simp add: clause_offset_def)

text \<open>
  C9. \<^verbatim>\<open>checkBag\<close> takes a literal whose variable is not in the bag as satisfied, so a
  clause with such a literal passes; the result is 1 exactly when every clause has a
  literal that is outside the bag or passes the test at a position of the bag; and when the
  result is 0, some clause has all its literals in the bag.
\<close>

theorem checkBag_out_of_bag:
  assumes "numclauses \<le> length numVarsC"
  shows "(\<not> in_bag variables numV lit \<longrightarrow> checkBag_pos lit aid numV variables 0 True)
    \<and> ((\<exists>a<len. \<not> in_bag variables numV (clauses ! (varNum + a))) \<longrightarrow>
         checkBag_clause clauses varNum len aid numV variables 0 False)
    \<and> checkBag clauses numVarsC numclauses aid numV variables =
        (if \<forall>i<numclauses. \<exists>a<numVarsC ! i.
              lit_ok variables numV aid (clauses ! (clause_offset numVarsC i + a))
         then 1 else 0)
    \<and> (checkBag clauses numVarsC numclauses aid numV variables = 0 \<longrightarrow>
         (\<exists>i<numclauses. \<forall>a<numVarsC ! i.
            in_bag variables numV (clauses ! (clause_offset numVarsC i + a))))"
proof -
  have p1: "\<not> in_bag variables numV lit \<longrightarrow> checkBag_pos lit aid numV variables 0 True"
    unfolding checkBag_pos_lit_ok lit_ok_def by blast
  have p2: "(\<exists>a<len. \<not> in_bag variables numV (clauses ! (varNum + a))) \<longrightarrow>
         checkBag_clause clauses varNum len aid numV variables 0 False"
    unfolding checkBag_clause_char lit_ok_def by blast
  note p3 = checkBag_char[OF assms, of clauses aid numV variables]
  have p4: "checkBag clauses numVarsC numclauses aid numV variables = 0 \<longrightarrow>
         (\<exists>i<numclauses. \<forall>a<numVarsC ! i.
            in_bag variables numV (clauses ! (clause_offset numVarsC i + a)))"
  proof
    assume z: "checkBag clauses numVarsC numclauses aid numV variables = 0"
    have "\<not> (\<forall>i<numclauses. \<exists>a<numVarsC ! i.
              lit_ok variables numV aid (clauses ! (clause_offset numVarsC i + a)))"
    proof
      assume "\<forall>i<numclauses. \<exists>a<numVarsC ! i.
              lit_ok variables numV aid (clauses ! (clause_offset numVarsC i + a))"
      with p3 have "checkBag clauses numVarsC numclauses aid numV variables = 1" by simp
      with z show False by simp
    qed
    then obtain i where i: "i < numclauses" "\<forall>a<numVarsC ! i.
              \<not> lit_ok variables numV aid (clauses ! (clause_offset numVarsC i + a))" by blast
    from i(2) have "\<forall>a<numVarsC ! i. in_bag variables numV (clauses ! (clause_offset numVarsC i + a))"
      unfolding lit_ok_def by blast
    with i(1) show "\<exists>i<numclauses. \<forall>a<numVarsC ! i.
            in_bag variables numV (clauses ! (clause_offset numVarsC i + a))" by blast
  qed
  from p1 p2 p3 p4 show ?thesis by blast
qed

theorem checkBag_out_of_bag_witness:
  "checkBag_pos 5 0 1 [1] 0 True \<and> checkBag_clause [1, 5] 0 2 0 1 [1] 0 False
   \<and> checkBag [1, 5] [2] 1 0 1 [1] = 1 \<and> checkBag [1] [1] 1 0 1 [1] = 0"
proof -
  have nb: "\<not> in_bag [1] 1 5" by (simp add: in_bag_def lit_match_def)
  have h: "(1::nat) \<le> length [2::nat]" by simp
  have ex: "\<exists>a<2. \<not> in_bag [1] 1 ([1, 5] ! (0 + a))"
    using nb by (intro exI[of _ 1]) simp
  from checkBag_out_of_bag[OF h, of "[1]" 1 5 0 2 "[1, 5]" 0] nb ex
  have "checkBag_pos 5 0 1 [1] 0 True" "checkBag_clause [1, 5] 0 2 0 1 [1] 0 False"
    by blast+
  moreover have "checkBag [1, 5] [2] 1 0 1 [1] = 1" "checkBag [1] [1] 1 0 1 [1] = 0"
    by code_simp+
  ultimately show ?thesis by blast
qed

lemma shl1_int_small: 
  assumes "b < 31" shows "shl1_int b = 2 ^ b"
proof -
  have lt: "(2::int) ^ b < 2 ^ 31" by (rule power_strict_increasing) (use assms in simp_all)
  have "push_bit b (1 :: 32 word) = word_of_int (2 ^ b)" by (simp add: push_bit_of_1)
  then have "shl1_int b = sint (word_of_int (2 ^ b) :: 32 word)" by (simp add: shl1_int_def)
  also have "\<dots> = signed_take_bit 31 (2 ^ b)"
    by (simp only: sint_uint uint_word_of_int_eq) (use assms in \<open>simp add: signed_take_bit_take_bit\<close>)
  also have "\<dots> = 2 ^ b"
  proof (rule signed_take_bit_int_eq_self)
    have p: "(0::int) \<le> 2 ^ b" by simp
    have n: "- (2 ^ 31) \<le> (0::int)" by simp
    from n p show "- (2 ^ 31) \<le> (2::int) ^ b" by (rule order_trans)
    show "(2::int) ^ b < 2 ^ 31" by (rule lt)
  qed
  finally show ?thesis .
qed

lemma and_pow2_zero: "((aid::int) AND 2 ^ b = 0) = (\<not> bit aid b)"
  by (simp add: and_exp_eq_0_iff_not_bit)

lemma and_pow2_pos: "((aid::int) AND 2 ^ b > 0) = (bit aid b)"
proof -
  have "0 \<le> aid AND 2 ^ b" by (simp add: and_nonnegative_int_iff)
  then have "(aid AND 2 ^ b > 0) = (aid AND 2 ^ b \<noteq> 0)" by linarith
  then show ?thesis by (simp add: and_exp_eq_0_iff_not_bit)
qed

lemma lit_test_narrow:
  "b < 31 \<Longrightarrow> lit \<noteq> 0 \<Longrightarrow> lit_test lit aid b = ((lit > 0 \<and> bit aid b) \<or> (lit < 0 \<and> \<not> bit aid b))"
  unfolding lit_test_def by (simp add: shl1_int_small and_pow2_zero and_pow2_pos)

lemma checkBag_narrow:
  assumes "numV \<le> 31" "numclauses \<le> length numVarsC"
    and bag: "\<forall>i<numclauses. \<forall>a<numVarsC ! i. in_bag variables numV (clauses ! (clause_offset numVarsC i + a))"
    and nz: "\<forall>b<numV. variables ! b \<noteq> 0"
  shows "checkBag clauses numVarsC numclauses aid numV variables =
     (if \<forall>i<numclauses. \<exists>a<numVarsC ! i.
            spec_lit_satisfied variables numV aid (clauses ! (clause_offset numVarsC i + a))
      then 1 else 0)"
proof -
  have eq: "lit_ok variables numV aid lit = spec_lit_satisfied variables numV aid lit"
    if "in_bag variables numV lit" for lit
  proof -
    have "lit_test lit aid b = ((lit > 0 \<and> bit aid b) \<or> (lit < 0 \<and> \<not> bit aid b))"
      if "b < numV" "lit_match lit variables b" for b
    proof -
      from that nz have "lit \<noteq> 0" unfolding lit_match_def by auto
      with that assms(1) show ?thesis by (intro lit_test_narrow) simp_all
    qed
    with \<open>in_bag variables numV lit\<close> show ?thesis
      unfolding lit_ok_def spec_lit_satisfied_def by blast
  qed
  have "(\<forall>i<numclauses. \<exists>a<numVarsC ! i.
            lit_ok variables numV aid (clauses ! (clause_offset numVarsC i + a))) =
        (\<forall>i<numclauses. \<exists>a<numVarsC ! i.
            spec_lit_satisfied variables numV aid (clauses ! (clause_offset numVarsC i + a)))"
    using bag eq by blast
  then show ?thesis unfolding checkBag_char[OF assms(2)] by simp
qed

text \<open>
  C4. A bag of 33 variables \<open>1, \<dots>, 33\<close>, the one clause \<open>(32)\<close> and the id \<open>2 ^ 32\<close>: the
  literal 32 is the variable at position 31, bit 31 of the id is 0, so the literal is not
  satisfied, and \<^verbatim>\<open>checkBag\<close> returns 1. (\<^verbatim>\<open>1 << 31\<close> is the \<^verbatim>\<open>int\<close> \<open>- 2 ^ 31\<close>, which
  as a \<^verbatim>\<open>long\<close> has every bit from 31 upwards set.)
\<close>

theorem checkBag_wide_bag:
  "checkBag [32] [1] 1 4294967296 33 (map int [1..<34]) = 1
   \<and> map int [1..<34] ! 31 = 32 \<and> \<not> bit (4294967296 :: int) 31
   \<and> \<not> spec_lit_satisfied (map int [1..<34]) 33 4294967296 32"
proof -
  have a: "checkBag [32] [1] 1 4294967296 33 (map int [1..<34]) = 1" by code_simp
  have b: "map int [1..<34] ! 31 = 32" by code_simp
  have c: "\<not> bit (4294967296 :: int) 31" by code_simp
  have d: "\<not> spec_lit_satisfied (map int [1..<34]) 33 4294967296 32"
  proof
    assume "spec_lit_satisfied (map int [1..<34]) 33 4294967296 32"
    then obtain b where b: "b < 33" "lit_match 32 (map int [1..<34]) b" "bit (4294967296 :: int) b"
      unfolding spec_lit_satisfied_def by auto
    from b(1,2) have "b = 31" unfolding lit_match_def by (simp add: nth_append) 
    with b(3) c show False by simp
  qed
  from a b c d show ?thesis by blast
qed

subsection \<open>The merge loop of solveIntroduce_\<close>

lemma solveIntroduce_scan_found:
  assumes "a \<le> p" "p < length variables" "variables ! p = ev"
    and "\<forall>k. a \<le> k \<and> k < p \<longrightarrow> variables ! k \<noteq> ev"
  shows "solveIntroduce_scan variables ev a = Inr p"
  using assms
proof (induction "p - a" arbitrary: a)
  case 0
  then have "a = p" by simp
  with 0 show ?case by (subst solveIntroduce_scan.simps) simp
next
  case (Suc n)
  then have lt: "a < p" by simp
  with Suc.prems have ne: "variables ! a \<noteq> ev" by simp
  have "solveIntroduce_scan variables ev (Suc a) = Inr p"
    using Suc.hyps(1)[of "Suc a"] Suc.hyps(2) Suc.prems lt by simp
  with lt ne Suc.prems(2) show ?case by (subst solveIntroduce_scan.simps) simp
qed

lemma solveIntroduce_scan_missing:
  assumes "\<forall>k. a \<le> k \<and> k < length variables \<longrightarrow> variables ! k \<noteq> ev"
  shows "solveIntroduce_scan variables ev a = Inl OutOfBounds"
  using assms
proof (induction "length variables - a" arbitrary: a)
  case 0
  then show ?case by (subst solveIntroduce_scan.simps) simp
next
  case (Suc n)
  then have lt: "a < length variables" by simp
  with Suc.prems have ne: "variables ! a \<noteq> ev" by simp
  have "solveIntroduce_scan variables ev (Suc a) = Inl OutOfBounds"
    using Suc.hyps(1)[of "Suc a"] Suc.hyps(2) Suc.prems by simp
  with lt ne show ?case by (subst solveIntroduce_scan.simps) simp
qed

lemma subseq_first:
  "subseq (x # xs) ys \<Longrightarrow>
   \<exists>p<length ys. ys ! p = x \<and> (\<forall>k<p. ys ! k \<noteq> x) \<and> subseq xs (drop (Suc p) ys)"
proof (induction ys)
  case Nil
  then show ?case by simp
next
  case (Cons y ys)
  show ?case
  proof (cases "x = y")
    case True
    with Cons.prems have "subseq xs ys" by simp
    with True show ?thesis by (intro exI[of _ 0]) simp
  next
    case False
    with Cons.prems have "subseq (x # xs) ys" by simp
    from Cons.IH[OF this] obtain p where p: "p < length ys" "ys ! p = x" "\<forall>k<p. ys ! k \<noteq> x"
      "subseq xs (drop (Suc p) ys)" by blast
    have "\<forall>k<Suc p. (y # ys) ! k \<noteq> x"
      using p(3) False by (auto simp: nth_Cons split: nat.splits)
    with p show ?thesis by (intro exI[of _ "Suc p"]) simp
  qed
qed

lemma bit_merge_step:
  "bit ((acc::int) OR push_bit b (drop_bit q aid AND 1)) k = (bit acc k \<or> (k = b \<and> bit aid q))"
proof -
  have e: "drop_bit q aid AND 1 = of_bool (bit aid q)"
    by (simp add: and_one_eq bit_iff_odd_drop_bit mod_2_eq_odd)
  show ?thesis
    unfolding e by (cases "bit aid q") (auto simp: bit_or_iff bit_exp_iff push_bit_of_1)
qed

lemma solveIntroduce_merge_step:
  assumes "b < length evs" "a < length variables"
    and "solveIntroduce_scan variables (evs ! b) a = Inr p"
  shows "solveIntroduce_merge (length variables) (length evs) variables (Some evs) aid b a acc =
     solveIntroduce_merge (length variables) (length evs) variables (Some evs) aid (Suc b) (Suc p)
       (acc OR push_bit b (drop_bit p aid AND 1))"
  using assms by (subst solveIntroduce_merge.simps) simp

lemma solveIntroduce_merge_done:
  assumes "\<not> (b < numVE \<and> a < numV)"
  shows "solveIntroduce_merge numV numVE variables edgeVariables aid b a acc = Inr acc"
  by (subst solveIntroduce_merge.simps) (simp only: assms if_False)

lemma solveIntroduce_merge_inv:
  assumes "subseq (drop b evs) (drop a variables)" "distinct variables"
  shows "\<exists>r. solveIntroduce_merge (length variables) (length evs) variables (Some evs) aid b a acc = Inr r
    \<and> (\<forall>k. bit r k = (bit acc k \<or> (b \<le> k \<and> k < length evs \<and>
              (\<exists>j<length variables. variables ! j = evs ! k \<and> bit aid j))))"
  using assms
proof (induction "length evs - b" arbitrary: b a acc)
  case 0
  then have "\<not> (b < length evs \<and> a < length variables)" by simp
  from solveIntroduce_merge_done[OF this]
  have m: "solveIntroduce_merge (length variables) (length evs) variables (Some evs) aid b a acc = Inr acc" .
  have "bit acc k = (bit acc k \<or> (b \<le> k \<and> k < length evs \<and>
              (\<exists>j<length variables. variables ! j = evs ! k \<and> bit aid j)))" for k
  proof -
    have "\<not> (b \<le> k \<and> k < length evs)" using 0 by arith
    then show ?thesis by blast
  qed
  with m show ?case by blast
next
  case (Suc n)
  then have lt: "b < length evs" by simp
  then have "drop b evs = evs ! b # drop (Suc b) evs" by (simp add: Cons_nth_drop_Suc)
  with Suc.prems have "subseq (evs ! b # drop (Suc b) evs) (drop a variables)" by simp
  from subseq_first[OF this] obtain p where p: "p < length (drop a variables)"
    "drop a variables ! p = evs ! b" "\<forall>k<p. drop a variables ! k \<noteq> evs ! b"
    "subseq (drop (Suc b) evs) (drop (Suc p) (drop a variables))" by blast
  from p(1) have ap: "a + p < length variables" and alt: "a < length variables" by simp_all
  from p(2) ap have vp: "variables ! (a + p) = evs ! b" by simp
  have first: "\<forall>k. a \<le> k \<and> k < a + p \<longrightarrow> variables ! k \<noteq> evs ! b"
  proof (intro allI impI)
    fix k assume k: "a \<le> k \<and> k < a + p"
    then have "k - a < p" by arith
    with p(3) have "drop a variables ! (k - a) \<noteq> evs ! b" by blast
    moreover have "drop a variables ! (k - a) = variables ! k" using k ap by simp
    ultimately show "variables ! k \<noteq> evs ! b" by simp
  qed
  have scan: "solveIntroduce_scan variables (evs ! b) a = Inr (a + p)"
    by (rule solveIntroduce_scan_found) (use ap vp first in simp_all)
  have sub: "subseq (drop (Suc b) evs) (drop (Suc (a + p)) variables)"
    using p(4) by (simp add: add.commute)
  let ?acc = "acc OR push_bit b (drop_bit (a + p) aid AND 1)"
  have nn: "n = length evs - Suc b" using Suc.hyps(2) by simp
  from Suc.hyps(1)[OF nn sub Suc.prems(2), of ?acc]
  obtain r where r: "solveIntroduce_merge (length variables) (length evs) variables (Some evs) aid
       (Suc b) (Suc (a + p)) ?acc = Inr r"
    "\<forall>k. bit r k = (bit ?acc k \<or> (Suc b \<le> k \<and> k < length evs \<and>
              (\<exists>j<length variables. variables ! j = evs ! k \<and> bit aid j)))"
    by blast
  have r2: "\<forall>k. bit r k = ((bit acc k \<or> (k = b \<and> bit aid (a + p))) \<or>
         (Suc b \<le> k \<and> k < length evs \<and>
              (\<exists>j<length variables. variables ! j = evs ! k \<and> bit aid j)))"
    using r(2) unfolding bit_merge_step .
  have uniq: "j = a + p" if "j < length variables" "variables ! j = evs ! b" for j
  proof -
    from that vp have "variables ! j = variables ! (a + p)" by simp
    with nth_eq_iff_index_eq[OF Suc.prems(2) that(1) ap] show ?thesis by simp
  qed
  have "bit r k = (bit acc k \<or> (b \<le> k \<and> k < length evs \<and>
              (\<exists>j<length variables. variables ! j = evs ! k \<and> bit aid j)))" for k
  proof (cases "k = b")
    case True
    have "(\<exists>j<length variables. variables ! j = evs ! b \<and> bit aid j) = bit aid (a + p)"
      using uniq vp ap by blast
    with True lt r2 show ?thesis by simp
  next
    case False
    then have "(Suc b \<le> k) = (b \<le> k)" by arith
    with False r2 show ?thesis by simp
  qed
  then have bits: "\<forall>k. bit r k = (bit acc k \<or> (b \<le> k \<and> k < length evs \<and>
              (\<exists>j<length variables. variables ! j = evs ! k \<and> bit aid j)))" by blast
  have "solveIntroduce_merge (length variables) (length evs) variables (Some evs) aid b a acc = Inr r"
    using r(1) solveIntroduce_merge_step[OF lt alt scan, of aid acc] by simp
  with bits show ?case by blast
qed

text \<open>
  C10, as amended. When the child's variables are a subsequence of the bag's variables
  (and the bag's variables are distinct), the loop of \<^verbatim>\<open>solveIntroduce_\<close> ends without a
  read outside \<open>variables\<close>, bit \<open>b\<close> of the result is the bit of the id at the position
  of the child's \<open>b\<close>-th variable in the bag, and no other bit is set.
\<close>

theorem solveIntroduce_merge_subseq:
  assumes "subseq evs variables" "distinct variables"
  shows "\<exists>otherId.
      solveIntroduce_merge (length variables) (length evs) variables (Some evs) aid 0 0 0 = Inr otherId
    \<and> (\<forall>b<length evs. \<forall>a<length variables. variables ! a = evs ! b \<longrightarrow> bit otherId b = bit aid a)
    \<and> (\<forall>b\<ge>length evs. \<not> bit otherId b)"
proof -
  from assms(1) have "subseq (drop 0 evs) (drop 0 variables)" by simp
  from solveIntroduce_merge_inv[OF this assms(2), of aid 0]
  obtain r where r:
    "solveIntroduce_merge (length variables) (length evs) variables (Some evs) aid 0 0 0 = Inr r"
    "\<forall>k. bit r k = (bit (0::int) k \<or> (0 \<le> k \<and> k < length evs \<and>
              (\<exists>j<length variables. variables ! j = evs ! k \<and> bit aid j)))"
    by blast
  from r(2) have bits: "bit r k = (k < length evs \<and>
              (\<exists>j<length variables. variables ! j = evs ! k \<and> bit aid j))" for k
    by simp
  have "bit r b = bit aid a" if "b < length evs" "a < length variables" "variables ! a = evs ! b" for a b
  proof -
    have "j = a" if "j < length variables" "variables ! j = evs ! b" for j
    proof -
      from that \<open>variables ! a = evs ! b\<close> have "variables ! j = variables ! a" by simp
      with nth_eq_iff_index_eq[OF assms(2) that(1) \<open>a < length variables\<close>] show ?thesis by simp
    qed
    then have "(\<exists>j<length variables. variables ! j = evs ! b \<and> bit aid j) = bit aid a"
      using that by blast
    with bits[of b] that(1) show ?thesis by simp
  qed
  moreover have "\<not> bit r b" if "b \<ge> length evs" for b
    using bits[of b] that by simp
  ultimately show ?thesis using r(1) by blast
qed

theorem solveIntroduce_merge_subseq_witness:
  "subseq [2 :: int] [1, 2, 3] \<and> distinct [1 :: int, 2, 3]
   \<and> solveIntroduce_merge 3 1 [1, 2, 3] (Some [2]) 2 0 0 0 = Inr 1
   \<and> (\<exists>otherId. solveIntroduce_merge 3 1 [1, 2, 3] (Some [2]) 2 0 0 0 = Inr otherId
         \<and> bit otherId 0 = bit (2 :: int) 1)"
proof -
  have h1: "subseq [2 :: int] [1, 2, 3]" by simp
  have h2: "distinct [1 :: int, 2, 3]" by simp
  from solveIntroduce_merge_subseq[OF h1 h2, of 2]
  obtain r where r: "solveIntroduce_merge (length [1 :: int, 2, 3]) (length [2 :: int]) [1, 2, 3] (Some [2]) 2 0 0 0 = Inr r"
    "\<forall>b<length [2 :: int]. \<forall>a<length [1 :: int, 2, 3]. [1 :: int, 2, 3] ! a = [2] ! b \<longrightarrow> bit r b = bit (2 :: int) a"
    by blast
  from r(2)[rule_format, of 0 1] have b: "bit r 0 = bit (2 :: int) 1" by simp
  have l3: "length [1 :: int, 2, 3] = 3" and l1: "length [2 :: int] = 1" by simp_all
  from r(1) have "solveIntroduce_merge 3 1 [1, 2, 3] (Some [2]) 2 0 0 0 = Inr r"
    unfolding l3 l1 .
  with b have ex: "\<exists>otherId. solveIntroduce_merge 3 1 [1, 2, 3] (Some [2]) 2 0 0 0 = Inr otherId
         \<and> bit otherId 0 = bit (2 :: int) 1" by blast
  have ev: "solveIntroduce_merge 3 1 [1, 2, 3] (Some [2]) 2 0 0 0 = Inr 1" by code_simp
  from h1 h2 ev ex show ?thesis by blast
qed

text \<open>
  The condition is not necessary: the loop stops when the bag's list is exhausted, so a
  child variable after that point is never looked for. Bag \<open>[1]\<close>, child \<open>[1, 2]\<close>: the loop
  ends well though 2 is not in the bag.
\<close>

theorem solveIntroduce_merge_not_only_subseq:
  "solveIntroduce_merge 1 2 [1] (Some [1, 2]) 1 0 0 0 = Inr 1 \<and> \<not> set [1 :: int, 2] \<subseteq> set [1]"
proof -
  have "solveIntroduce_merge 1 2 [1] (Some [1, 2]) 1 0 0 0 = Inr 1" by code_simp
  moreover have "\<not> set [1 :: int, 2] \<subseteq> set [1]" by simp
  ultimately show ?thesis by blast
qed

text \<open>A child variable that the scan looks for and that is not there: a read outside the array.\<close>

lemma solveIntroduce_merge_fault_example:
  "solveIntroduce_merge 1 1 [1] (Some [2]) 0 0 0 0 = Inl OutOfBounds"
  by code_simp

subsection \<open>The join kernel\<close>

lemma fbind_Inr: "fbind (Inr x) f = f x"
  by (simp add: fbind_def)

lemma fbind_Inl: "fbind (Inl e) f = Inl e"
  by (simp add: fbind_def)

lemma fbind_eq_Inr:
  "(fbind m f = Inr y) = (\<exists>x. m = Inr x \<and> f x = Inr y)"
  by (cases m) (simp_all add: fbind_def)

lemma rd_in: "0 \<le> i \<Longrightarrow> i < int (length xs) \<Longrightarrow> rd xs i = Inr (xs ! nat i)"
  by (simp add: rd_def)

lemma wr_in: "0 \<le> i \<Longrightarrow> i < int (length xs) \<Longrightarrow> wr xs i v = Inr (xs[nat i := v])"
  by (simp add: wr_def)

lemma rd_eq_Inr: "(rd xs i = Inr x) = (0 \<le> i \<and> i < int (length xs) \<and> x = xs ! nat i)"
  by (auto simp: rd_def)

lemma wr_eq_Inr: "(wr xs i v = Inr t) = (0 \<le> i \<and> i < int (length xs) \<and> t = xs[nat i := v])"
  by (auto simp: wr_def)

lemma solveJoin_skip:
  "max_id \<le> gid + id_offset \<Longrightarrow>
   solveJoin U array_type no_exp st edge1 edge2 variables edgeVariables1 edgeVariables2
     numV numVE1 numVE2 minId1 maxId1 minId2 maxId2 startIDNode weights val id_offset max_id gid
   = Inr st"
  by (simp add: solveJoin_def)

lemma solveJoin_eval:
  assumes "gid + id_offset < max_id"
    and "solveJoin_tmp U array_type numV edge1 numVE1 variables edgeVariables1 minId1 maxId1
           weights (gid + id_offset) = Inr tmp1"
    and "solveJoin_tmp U array_type numV edge2 numVE2 variables edgeVariables2 minId2 maxId2
           weights (gid + id_offset) = Inr tmp2"
    and "solveJoin_weight U numV variables weights (gid + id_offset) = Inr weight"
  shows "solveJoin U array_type no_exp st edge1 edge2 variables edgeVariables1 edgeVariables2
     numV numVE1 numVE2 minId1 maxId1 minId2 maxId2 startIDNode weights val id_offset max_id gid
   = fbind (solveJoin_branch U no_exp st (gid + id_offset - startIDNode) tmp1 tmp2 val weight)
       (\<lambda>st1. if array_type \<and> \<not> no_exp then
                fbind (rd (table st1) (gid + id_offset - startIDNode)) (\<lambda>x.
                  Inr (st1\<lparr>exponent := max (fp_ilogb U x) (exponent st1)\<rparr>))
              else Inr st1)"
  using assms by (simp add: solveJoin_def Let_def fbind_Inr)

lemma solveJoin_branch_both:
  assumes "d_ge0 tmp1" "d_ge0 tmp2" "0 \<le> slot" "slot < int (length (table st))"
  shows "solveJoin_branch U no_exp st slot tmp1 tmp2 val weight =
     Inr (st\<lparr>table := (table st)[nat slot :=
                   (if no_exp then fp_div U (fp_mul U tmp2 tmp1) weight
                    else fp_div U (fp_div U (fp_mul U tmp2 tmp1) val) weight)],
              sols := (if d_gt0 tmp2 \<and> d_gt0 tmp1 then sols st + 1 else sols st)\<rparr>)"
  using assms by (simp add: solveJoin_branch_def wr_in fbind_Inr)

lemma solveJoin_branch_first:
  assumes "d_ge0 tmp1" "\<not> d_ge0 tmp2" "0 \<le> slot" "slot < int (length (table st))"
  shows "solveJoin_branch U no_exp st slot tmp1 tmp2 val weight =
     Inr (st\<lparr>table := (table st)[nat slot :=
                   fp_div U (fp_mul U tmp1 (if d_lt0 (table st ! nat slot) then d_one
                                            else table st ! nat slot)) weight],
              sols := (if d_lt0 (table st ! nat slot)
                       then (if d_gt0 tmp1 then sols st + 1 else sols st)
                       else if d_gt0 (table st ! nat slot)
                       then (if d_eq0 tmp1 then sols st - 1 else sols st)
                       else sols st)\<rparr>)"
  using assms by (simp add: solveJoin_branch_def wr_in rd_in fbind_Inr Let_def)

lemma solveJoin_branch_second:
  assumes "\<not> d_ge0 tmp1" "d_ge0 tmp2" "0 \<le> slot" "slot < int (length (table st))"
  shows "solveJoin_branch U no_exp st slot tmp1 tmp2 val weight =
     Inr (st\<lparr>table := (table st)[nat slot :=
                   (if no_exp
                    then fp_mul U tmp2 (if d_lt0 (table st ! nat slot) then d_one
                                        else table st ! nat slot)
                    else fp_div U (fp_mul U tmp2 (if d_lt0 (table st ! nat slot) then d_one
                                                  else table st ! nat slot)) val)],
              sols := (if d_lt0 (table st ! nat slot)
                       then (if d_gt0 tmp2 then sols st + 1 else sols st)
                       else if d_gt0 (table st ! nat slot)
                       then (if d_eq0 tmp2 then sols st - 1 else sols st)
                       else sols st)\<rparr>)"
  using assms by (simp add: solveJoin_branch_def wr_in rd_in fbind_Inr Let_def)

lemma solveJoin_branch_none:
  assumes "\<not> d_ge0 tmp1" "\<not> d_ge0 tmp2"
  shows "solveJoin_branch U no_exp st slot tmp1 tmp2 val weight = Inr st"
  using assms by (simp add: solveJoin_branch_def)

lemma solveJoin_branch_frame:
  assumes "solveJoin_branch U no_exp st slot tmp1 tmp2 val weight = Inr st1"
  shows "length (table st1) = length (table st) \<and> exponent st1 = exponent st \<and>
         (\<forall>s. s \<noteq> nat slot \<longrightarrow> table st1 ! s = table st ! s)"
proof (cases "d_ge0 tmp1")
  case t1: True
  show ?thesis
  proof (cases "d_ge0 tmp2")
    case True
    with t1 assms show ?thesis
      by (auto simp: solveJoin_branch_def fbind_eq_Inr wr_eq_Inr)
  next
    case False
    with t1 assms show ?thesis
      by (auto simp: solveJoin_branch_def fbind_eq_Inr wr_eq_Inr rd_eq_Inr Let_def)
  qed
next
  case t1: False
  show ?thesis
  proof (cases "d_ge0 tmp2")
    case True
    with t1 assms show ?thesis
      by (auto simp: solveJoin_branch_def fbind_eq_Inr wr_eq_Inr rd_eq_Inr Let_def)
  next
    case False
    with t1 assms show ?thesis
      by (simp add: solveJoin_branch_def)
  qed
qed

lemma d_neg1_not_ge0: "\<not> d_ge0 d_neg1"
  by (simp add: d_ge0_def d_neg1_def)

lemma solveJoin_tmp_ge0_D:
  assumes "solveJoin_tmp U array_type numV edge numVE variables edgeVariables minId maxId
             weights aid = Inr tmp"
    and "d_ge0 tmp"
  shows "\<exists>otherId w.
      solveIntroduce_merge numV numVE variables edgeVariables aid 0 0 0 = Inr otherId
    \<and> minId \<le> otherId \<and> otherId < maxId
    \<and> (case weights of
          None \<Rightarrow> Inr d_one
        | Some ws \<Rightarrow> solveIntroduce_weight U numV numVE variables edgeVariables ws aid 0 0 d_one)
       = Inr w
    \<and> (case edge of
          None \<Rightarrow> tmp = d_zero
        | Some e \<Rightarrow>
            (if array_type
             then 0 \<le> otherId - minId \<and> otherId - minId < int (length e)
                  \<and> tmp = fp_mul U (e ! nat (otherId - minId)) w
             else tmp = fp_mul U (getCount otherId e numVE) w))"
proof -
  from assms d_neg1_not_ge0 have m: "minId \<noteq> - 1"
    by (auto simp: solveJoin_tmp_def split: if_splits)
  with assms(1) have "solveIntroduce_fn U array_type numV edge numVE variables edgeVariables
      minId maxId weights aid = Inr tmp"
    by (simp add: solveJoin_tmp_def)
  then obtain otherId w where
    o: "solveIntroduce_merge numV numVE variables edgeVariables aid 0 0 0 = Inr otherId"
    and w: "(case weights of
          None \<Rightarrow> Inr d_one
        | Some ws \<Rightarrow> solveIntroduce_weight U numV numVE variables edgeVariables ws aid 0 0 d_one)
       = Inr w"
    and r: "(case edge of
             Some e \<Rightarrow>
               (if minId \<le> otherId \<and> otherId < maxId then
                  (if array_type
                   then fbind (rd e (otherId - minId)) (\<lambda>x. Inr (fp_mul U x w))
                   else Inr (fp_mul U (getCount otherId e numVE) w))
                else Inr d_neg1)
           | None \<Rightarrow>
               (if minId \<le> otherId \<and> otherId < maxId then Inr d_zero else Inr d_neg1))
          = Inr tmp"
    unfolding solveIntroduce_fn_def fbind_eq_Inr by blast
  have rng: "minId \<le> otherId \<and> otherId < maxId"
  proof (rule ccontr)
    assume "\<not> (minId \<le> otherId \<and> otherId < maxId)"
    with r have "tmp = d_neg1" by (cases edge) auto
    with assms(2) d_neg1_not_ge0 show False by simp
  qed
  have v: "(case edge of
          None \<Rightarrow> tmp = d_zero
        | Some e \<Rightarrow>
            (if array_type
             then 0 \<le> otherId - minId \<and> otherId - minId < int (length e)
                  \<and> tmp = fp_mul U (e ! nat (otherId - minId)) w
             else tmp = fp_mul U (getCount otherId e numVE) w))"
  proof (cases edge)
    case None
    with r rng show ?thesis by auto
  next
    case (Some e)
    show ?thesis
    proof (cases array_type)
      case True
      with r rng Some have "fbind (rd e (otherId - minId)) (\<lambda>x. Inr (fp_mul U x w)) = Inr tmp"
        by simp
      then obtain x where "rd e (otherId - minId) = Inr x" "tmp = fp_mul U x w"
        unfolding fbind_eq_Inr by auto
      with Some True show ?thesis by (auto simp: rd_eq_Inr)
    next
      case False
      with r rng Some show ?thesis by auto
    qed
  qed
  from o rng w v show ?thesis by blast
qed

lemma weight_product_fold:
  assumes "weight_product U numV variables ws aid a w = Inr w'"
  shows "w' = foldl (fp_mul U) w
           (map (\<lambda>a. ws ! nat (if drop_bit a aid AND 1 > 0 then variables ! a * 2
                                 else variables ! a * 2 + 1)) [a..<numV])"
  using assms
proof (induction "numV - a" arbitrary: a w)
  case 0
  then have "\<not> a < numV" by simp
  with 0(2) have "w' = w" by (subst (asm) weight_product.simps) simp
  with \<open>\<not> a < numV\<close> show ?case by simp
next
  case (Suc d)
  then have lt: "a < numV" and d: "d = numV - Suc a" by simp_all
  let ?i = "\<lambda>a. if drop_bit a aid AND 1 > 0 then variables ! a * 2 else variables ! a * 2 + 1"
  from Suc.prems lt obtain x where x: "lit_weight ws variables aid a = Inr x"
    and r: "weight_product U numV variables ws aid (Suc a) (fp_mul U w x) = Inr w'"
    by (subst (asm) weight_product.simps) (auto split: sum.splits)
  from x have "x = ws ! nat (?i a)"
    by (auto simp: lit_weight_def fbind_eq_Inr rd_eq_Inr)
  moreover from Suc.hyps(1)[OF d r]
  have "w' = foldl (fp_mul U) (fp_mul U w x) (map (\<lambda>a. ws ! nat (?i a)) [Suc a..<numV])" .
  moreover from lt have "[a..<numV] = a # [Suc a..<numV]" by (rule upt_conv_Cons)
  ultimately show ?case by simp
qed

text \<open>
  C2, as amended. A worker of the join kernel whose two lookups are both \<open>\<ge> 0\<close> stores
  \<open>tmp1 * tmp2 / value / weight\<close> in its slot \<open>id - startIDNode\<close> when the kernel is compiled
  with the exponent, and \<open>tmp1 * tmp2 / weight\<close> when it is compiled with \<^verbatim>\<open>NO_EXP\<close>; it adds
  1 to \<^verbatim>\<open>sols\<close> exactly when both lookups are \<open>> 0\<close>. A lookup that is \<open>\<ge> 0\<close> is the entry
  of the child table at the projection \<open>otherId\<close> of the id, which lies in the range
  \<open>[minId, maxId)\<close> of the child, times the weight of the variables that the child does not
  have; \<open>weight\<close> is the product of the weights of the literals of the id. (The code
  multiplies in the order \<open>tmp2 * tmp1\<close>; the product of two doubles that are not NaN does
  not depend on the order.)
\<close>

theorem solveJoin_both_in_range:
  assumes "gid + id_offset < max_id"
    and "solveJoin_tmp U array_type numV edge1 numVE1 variables edgeVariables1 minId1 maxId1
           weights (gid + id_offset) = Inr tmp1"
    and "solveJoin_tmp U array_type numV edge2 numVE2 variables edgeVariables2 minId2 maxId2
           weights (gid + id_offset) = Inr tmp2"
    and "solveJoin_weight U numV variables weights (gid + id_offset) = Inr weight"
    and "d_ge0 tmp1" and "d_ge0 tmp2"
    and "0 \<le> gid + id_offset - startIDNode"
    and "gid + id_offset - startIDNode < int (length (table st))"
    and "fp_mul U tmp2 tmp1 = fp_mul U tmp1 tmp2"
  shows "\<exists>st' otherId1 otherId2 w1 w2.
         solveJoin U array_type no_exp st edge1 edge2 variables edgeVariables1 edgeVariables2
           numV numVE1 numVE2 minId1 maxId1 minId2 maxId2 startIDNode weights val id_offset max_id
           gid = Inr st'
       \<and> table st' = (table st)[nat (gid + id_offset - startIDNode) :=
                        (if no_exp then fp_div U (fp_mul U tmp1 tmp2) weight
                         else fp_div U (fp_div U (fp_mul U tmp1 tmp2) val) weight)]
       \<and> sols st' = (if d_gt0 tmp1 \<and> d_gt0 tmp2 then sols st + 1 else sols st)
       \<and> solveIntroduce_merge numV numVE1 variables edgeVariables1 (gid + id_offset) 0 0 0
           = Inr otherId1
       \<and> minId1 \<le> otherId1 \<and> otherId1 < maxId1
       \<and> solveIntroduce_merge numV numVE2 variables edgeVariables2 (gid + id_offset) 0 0 0
           = Inr otherId2
       \<and> minId2 \<le> otherId2 \<and> otherId2 < maxId2
       \<and> (case weights of
             None \<Rightarrow> Inr d_one
           | Some ws \<Rightarrow> solveIntroduce_weight U numV numVE1 variables edgeVariables1 ws
                         (gid + id_offset) 0 0 d_one) = Inr w1
       \<and> (case weights of
             None \<Rightarrow> Inr d_one
           | Some ws \<Rightarrow> solveIntroduce_weight U numV numVE2 variables edgeVariables2 ws
                         (gid + id_offset) 0 0 d_one) = Inr w2
       \<and> (case edge1 of
             None \<Rightarrow> tmp1 = d_zero
           | Some e \<Rightarrow>
               (if array_type
                then 0 \<le> otherId1 - minId1 \<and> otherId1 - minId1 < int (length e)
                     \<and> tmp1 = fp_mul U (e ! nat (otherId1 - minId1)) w1
                else tmp1 = fp_mul U (getCount otherId1 e numVE1) w1))
       \<and> (case edge2 of
             None \<Rightarrow> tmp2 = d_zero
           | Some e \<Rightarrow>
               (if array_type
                then 0 \<le> otherId2 - minId2 \<and> otherId2 - minId2 < int (length e)
                     \<and> tmp2 = fp_mul U (e ! nat (otherId2 - minId2)) w2
                else tmp2 = fp_mul U (getCount otherId2 e numVE2) w2))
       \<and> weight = (case weights of
             None \<Rightarrow> d_one
           | Some ws \<Rightarrow>
               foldl (fp_mul U) d_one
                 (map (\<lambda>a. ws ! nat (if drop_bit a (gid + id_offset) AND 1 > 0
                                       then variables ! a * 2 else variables ! a * 2 + 1))
                    [0..<numV]))"
proof -
  let ?slot = "gid + id_offset - startIDNode"
  define new where "new = (if no_exp then fp_div U (fp_mul U tmp1 tmp2) weight
              else fp_div U (fp_div U (fp_mul U tmp1 tmp2) val) weight)"
  define st1 where "st1 = st\<lparr>table := (table st)[nat ?slot := new],
                 sols := (if d_gt0 tmp2 \<and> d_gt0 tmp1 then sols st + 1 else sols st)\<rparr>"
  have b: "solveJoin_branch U no_exp st ?slot tmp1 tmp2 val weight = Inr st1"
    using solveJoin_branch_both[OF assms(5,6,7,8), of U no_exp val weight] assms(9)
    by (simp add: st1_def new_def)
  have r: "rd (table st1) ?slot = Inr (table st1 ! nat ?slot)"
    using assms(7,8) by (simp add: rd_in st1_def)
  have t1: "table st1 = (table st)[nat ?slot := new]"
    and s1: "sols st1 = (if d_gt0 tmp1 \<and> d_gt0 tmp2 then sols st + 1 else sols st)"
    by (auto simp: st1_def)
  have "\<exists>st'. solveJoin U array_type no_exp st edge1 edge2 variables edgeVariables1 edgeVariables2
           numV numVE1 numVE2 minId1 maxId1 minId2 maxId2 startIDNode weights val id_offset max_id
           gid = Inr st' \<and> table st' = table st1 \<and> sols st' = sols st1"
  proof (cases "array_type \<and> \<not> no_exp")
    case True
    then show ?thesis
      unfolding solveJoin_eval[OF assms(1,2,3,4)] b by (simp add: fbind_Inr r)
  next
    case False
    then show ?thesis
      unfolding solveJoin_eval[OF assms(1,2,3,4)] b by (auto simp: fbind_Inr)
  qed
  then obtain st' where st': "solveJoin U array_type no_exp st edge1 edge2 variables edgeVariables1
           edgeVariables2 numV numVE1 numVE2 minId1 maxId1 minId2 maxId2 startIDNode weights val
           id_offset max_id gid = Inr st'"
    "table st' = (table st)[nat ?slot := (if no_exp then fp_div U (fp_mul U tmp1 tmp2) weight
                         else fp_div U (fp_div U (fp_mul U tmp1 tmp2) val) weight)]"
    "sols st' = (if d_gt0 tmp1 \<and> d_gt0 tmp2 then sols st + 1 else sols st)"
    unfolding t1 s1 new_def by blast
  from solveJoin_tmp_ge0_D[OF assms(2,5)] obtain otherId1 w1 where c1:
    "solveIntroduce_merge numV numVE1 variables edgeVariables1 (gid + id_offset) 0 0 0
           = Inr otherId1"
    "minId1 \<le> otherId1 \<and> otherId1 < maxId1"
    "(case weights of
             None \<Rightarrow> Inr d_one
           | Some ws \<Rightarrow> solveIntroduce_weight U numV numVE1 variables edgeVariables1 ws
                         (gid + id_offset) 0 0 d_one) = Inr w1"
    "(case edge1 of
             None \<Rightarrow> tmp1 = d_zero
           | Some e \<Rightarrow>
               (if array_type
                then 0 \<le> otherId1 - minId1 \<and> otherId1 - minId1 < int (length e)
                     \<and> tmp1 = fp_mul U (e ! nat (otherId1 - minId1)) w1
                else tmp1 = fp_mul U (getCount otherId1 e numVE1) w1))"
    by blast
  from solveJoin_tmp_ge0_D[OF assms(3,6)] obtain otherId2 w2 where c2:
    "solveIntroduce_merge numV numVE2 variables edgeVariables2 (gid + id_offset) 0 0 0
           = Inr otherId2"
    "minId2 \<le> otherId2 \<and> otherId2 < maxId2"
    "(case weights of
             None \<Rightarrow> Inr d_one
           | Some ws \<Rightarrow> solveIntroduce_weight U numV numVE2 variables edgeVariables2 ws
                         (gid + id_offset) 0 0 d_one) = Inr w2"
    "(case edge2 of
             None \<Rightarrow> tmp2 = d_zero
           | Some e \<Rightarrow>
               (if array_type
                then 0 \<le> otherId2 - minId2 \<and> otherId2 - minId2 < int (length e)
                     \<and> tmp2 = fp_mul U (e ! nat (otherId2 - minId2)) w2
                else tmp2 = fp_mul U (getCount otherId2 e numVE2) w2))"
    by blast
  have w: "weight = (case weights of
             None \<Rightarrow> d_one
           | Some ws \<Rightarrow>
               foldl (fp_mul U) d_one
                 (map (\<lambda>a. ws ! nat (if drop_bit a (gid + id_offset) AND 1 > 0
                                       then variables ! a * 2 else variables ! a * 2 + 1))
                    [0..<numV]))"
  proof (cases weights)
    case None
    with assms(4) show ?thesis by (simp add: solveJoin_weight_def)
  next
    case (Some ws)
    with assms(4) have "weight_product U numV variables ws (gid + id_offset) 0 d_one = Inr weight"
      by (simp add: solveJoin_weight_def)
    from weight_product_fold[OF this] Some show ?thesis by simp
  qed
  from st' c1 c2 w show ?thesis by blast
qed

theorem solveJoin_both_in_range_witness:
  "solveJoin_tmp ieee True 3 (Some [d_one, d_two, d_four, d_eight]) 2 [1, 2, 3] (Some [1, 3]) 0 4
       (Some [d_one, d_one, d_two, d_one, d_one, d_half, d_four, d_one]) (1 + 4) = Inr d_four
   \<and> solveJoin_tmp ieee True 3 (Some [d_one, d_four, d_two]) 2 [1, 2, 3] (Some [2, 3]) 1 4
       (Some [d_one, d_one, d_two, d_one, d_one, d_half, d_four, d_one]) (1 + 4) = Inr d_eight
   \<and> solveJoin_weight ieee 3 [1, 2, 3] (Some [d_one, d_one, d_two, d_one, d_one, d_half, d_four, d_one]) (1 + 4) = Inr d_four
   \<and> solveIntroduce_merge 3 2 [1, 2, 3] (Some [1, 3]) (1 + 4) 0 0 0 = Inr 3
   \<and> solveIntroduce_merge 3 2 [1, 2, 3] (Some [2, 3]) (1 + 4) 0 0 0 = Inr 2
   \<and> solveIntroduce_weight ieee 3 2 [1, 2, 3] (Some [1, 3])
         [d_one, d_one, d_two, d_one, d_one, d_half, d_four, d_one] (1 + 4) 0 0 d_one = Inr d_half
   \<and> solveIntroduce_weight ieee 3 2 [1, 2, 3] (Some [2, 3])
         [d_one, d_one, d_two, d_one, d_one, d_half, d_four, d_one] (1 + 4) 0 0 d_one = Inr d_two
   \<and> d_ge0 d_four \<and> d_ge0 d_eight \<and> d_gt0 d_four \<and> d_gt0 d_eight
   \<and> fp_div ieee (fp_div ieee (fp_mul ieee d_four d_eight) d_two) d_four = d_four
   \<and> fp_div ieee (fp_mul ieee d_four d_eight) d_four = d_eight
   \<and> (\<exists>st'. solveJoin ieee True False \<lparr>table = [d_neg1, d_neg1, d_neg1, d_neg1], sols = 0, exponent = - 1074\<rparr>
          (Some [d_one, d_two, d_four, d_eight]) (Some [d_one, d_four, d_two]) [1, 2, 3] (Some [1, 3]) (Some [2, 3]) 3 2 2 0 4 1 4 4
          (Some [d_one, d_one, d_two, d_one, d_one, d_half, d_four, d_one]) d_two 4 8 1 = Inr st'
        \<and> table st' = [d_neg1, d_four, d_neg1, d_neg1] \<and> sols st' = 1)
   \<and> (\<exists>st'. solveJoin ieee True True \<lparr>table = [d_neg1, d_neg1, d_neg1, d_neg1], sols = 0, exponent = - 1074\<rparr>
          (Some [d_one, d_two, d_four, d_eight]) (Some [d_one, d_four, d_two]) [1, 2, 3] (Some [1, 3]) (Some [2, 3]) 3 2 2 0 4 1 4 4
          (Some [d_one, d_one, d_two, d_one, d_one, d_half, d_four, d_one]) d_two 4 8 1 = Inr st'
        \<and> table st' = [d_neg1, d_eight, d_neg1, d_neg1] \<and> sols st' = 1)"
proof -
  let ?st = "\<lparr>table = [d_neg1, d_neg1, d_neg1, d_neg1], sols = 0, exponent = - 1074\<rparr>"
  have h1: "(1::int) + 4 < 8" by simp
  have h2: "solveJoin_tmp ieee True 3 (Some [d_one, d_two, d_four, d_eight]) 2 [1, 2, 3] (Some [1, 3]) 0 4
       (Some [d_one, d_one, d_two, d_one, d_one, d_half, d_four, d_one]) (1 + 4) = Inr d_four"
    by code_simp
  have h3: "solveJoin_tmp ieee True 3 (Some [d_one, d_four, d_two]) 2 [1, 2, 3] (Some [2, 3]) 1 4
       (Some [d_one, d_one, d_two, d_one, d_one, d_half, d_four, d_one]) (1 + 4) = Inr d_eight"
    by code_simp
  have h4: "solveJoin_weight ieee 3 [1, 2, 3] (Some [d_one, d_one, d_two, d_one, d_one, d_half, d_four, d_one]) (1 + 4) = Inr d_four"
    by code_simp
  have m1: "solveIntroduce_merge 3 2 [1, 2, 3] (Some [1, 3]) (1 + 4) 0 0 0 = Inr 3" by code_simp
  have m2: "solveIntroduce_merge 3 2 [1, 2, 3] (Some [2, 3]) (1 + 4) 0 0 0 = Inr 2" by code_simp
  have w1: "solveIntroduce_weight ieee 3 2 [1, 2, 3] (Some [1, 3])
         [d_one, d_one, d_two, d_one, d_one, d_half, d_four, d_one] (1 + 4) 0 0 d_one = Inr d_half"
    by code_simp
  have w2: "solveIntroduce_weight ieee 3 2 [1, 2, 3] (Some [2, 3])
         [d_one, d_one, d_two, d_one, d_one, d_half, d_four, d_one] (1 + 4) 0 0 d_one = Inr d_two"
    by code_simp
  have h5: "d_ge0 d_four" by code_simp
  have h6: "d_ge0 d_eight" by code_simp
  have h7: "(0::int) \<le> 1 + 4 - 4" by simp
  have h8: "(1::int) + 4 - 4 < int (length (table ?st))" by simp
  have h9: "fp_mul ieee d_eight d_four = fp_mul ieee d_four d_eight" by code_simp
  have g: "d_gt0 d_four" "d_gt0 d_eight" by code_simp+
  have v: "fp_div ieee (fp_div ieee (fp_mul ieee d_four d_eight) d_two) d_four = d_four"
    by code_simp
  have v': "fp_div ieee (fp_mul ieee d_four d_eight) d_four = d_eight" by code_simp
  from solveJoin_both_in_range[OF h1 h2 h3 h4 h5 h6 h7 h8 h9, where val = d_two and no_exp = False]
  obtain st' where st': "solveJoin ieee True False \<lparr>table = [d_neg1, d_neg1, d_neg1, d_neg1], sols = 0, exponent = - 1074\<rparr>
          (Some [d_one, d_two, d_four, d_eight]) (Some [d_one, d_four, d_two]) [1, 2, 3] (Some [1, 3]) (Some [2, 3]) 3 2 2 0 4 1 4 4
          (Some [d_one, d_one, d_two, d_one, d_one, d_half, d_four, d_one]) d_two 4 8 1 = Inr st'"
    "table st' = (table ?st)[nat (1 + 4 - 4) :=
        (if False then fp_div ieee (fp_mul ieee d_four d_eight) d_four
         else fp_div ieee (fp_div ieee (fp_mul ieee d_four d_eight) d_two) d_four)]"
    "sols st' = (if d_gt0 d_four \<and> d_gt0 d_eight then sols ?st + 1 else sols ?st)"
    by blast
  from st'(2) v have t: "table st' = [d_neg1, d_four, d_neg1, d_neg1]" by simp
  from st'(3) g have s: "sols st' = 1" by simp
  from st'(1) t s have a: "\<exists>st'. solveJoin ieee True False \<lparr>table = [d_neg1, d_neg1, d_neg1, d_neg1], sols = 0, exponent = - 1074\<rparr>
          (Some [d_one, d_two, d_four, d_eight]) (Some [d_one, d_four, d_two]) [1, 2, 3] (Some [1, 3]) (Some [2, 3]) 3 2 2 0 4 1 4 4
          (Some [d_one, d_one, d_two, d_one, d_one, d_half, d_four, d_one]) d_two 4 8 1 = Inr st'
        \<and> table st' = [d_neg1, d_four, d_neg1, d_neg1] \<and> sols st' = 1" by blast
  from solveJoin_both_in_range[OF h1 h2 h3 h4 h5 h6 h7 h8 h9, where val = d_two and no_exp = True]
  obtain st2 where st2: "solveJoin ieee True True \<lparr>table = [d_neg1, d_neg1, d_neg1, d_neg1], sols = 0, exponent = - 1074\<rparr>
          (Some [d_one, d_two, d_four, d_eight]) (Some [d_one, d_four, d_two]) [1, 2, 3] (Some [1, 3]) (Some [2, 3]) 3 2 2 0 4 1 4 4
          (Some [d_one, d_one, d_two, d_one, d_one, d_half, d_four, d_one]) d_two 4 8 1 = Inr st2"
    "table st2 = (table ?st)[nat (1 + 4 - 4) :=
        (if True then fp_div ieee (fp_mul ieee d_four d_eight) d_four
         else fp_div ieee (fp_div ieee (fp_mul ieee d_four d_eight) d_two) d_four)]"
    "sols st2 = (if d_gt0 d_four \<and> d_gt0 d_eight then sols ?st + 1 else sols ?st)"
    by blast
  from st2(2) v' have t2: "table st2 = [d_neg1, d_eight, d_neg1, d_neg1]" by simp
  from st2(3) g have s2: "sols st2 = 1" by simp
  from st2(1) t2 s2 have b: "\<exists>st'. solveJoin ieee True True \<lparr>table = [d_neg1, d_neg1, d_neg1, d_neg1], sols = 0, exponent = - 1074\<rparr>
          (Some [d_one, d_two, d_four, d_eight]) (Some [d_one, d_four, d_two]) [1, 2, 3] (Some [1, 3]) (Some [2, 3]) 3 2 2 0 4 1 4 4
          (Some [d_one, d_one, d_two, d_one, d_one, d_half, d_four, d_one]) d_two 4 8 1 = Inr st'
        \<and> table st' = [d_neg1, d_eight, d_neg1, d_neg1] \<and> sols st' = 1" by blast
  from h2 h3 h4 m1 m2 w1 w2 h5 h6 g v v' a b show ?thesis by (intro conjI)
qed

text \<open>
  The claim as stated fails for the kernel compiled with \<^verbatim>\<open>NO_EXP\<close>: a bag of the
  variables 1, 2, 3, children over the variables 1, 3 and 2, 3, and the id 5, whose
  projections 3 and 2 are in the ranges of the children. The lookups are 4.0 and 8.0 and
  the weight is 4.0; with \<open>value = 2.0\<close> the claim's \<open>tmp1 * tmp2 / value / weight\<close> is 4.0,
  and the kernel stores \<open>tmp1 * tmp2 / weight = 8.0\<close>.
\<close>

theorem solveJoin_both_in_range_no_exp:
  "solveJoin ieee True True \<lparr>table = [d_neg1, d_neg1, d_neg1, d_neg1], sols = 0, exponent = - 1074\<rparr>
          (Some [d_one, d_two, d_four, d_eight]) (Some [d_one, d_four, d_two]) [1, 2, 3] (Some [1, 3]) (Some [2, 3]) 3 2 2 0 4 1 4 4
          (Some [d_one, d_one, d_two, d_one, d_one, d_half, d_four, d_one]) d_two 4 8 1
     = Inr \<lparr>table = [d_neg1, d_eight, d_neg1, d_neg1], sols = 1, exponent = - 1074\<rparr>
   \<and> solveJoin_tmp ieee True 3 (Some [d_one, d_two, d_four, d_eight]) 2 [1, 2, 3] (Some [1, 3]) 0 4
       (Some [d_one, d_one, d_two, d_one, d_one, d_half, d_four, d_one]) (1 + 4) = Inr d_four
   \<and> solveJoin_tmp ieee True 3 (Some [d_one, d_four, d_two]) 2 [1, 2, 3] (Some [2, 3]) 1 4
       (Some [d_one, d_one, d_two, d_one, d_one, d_half, d_four, d_one]) (1 + 4) = Inr d_eight
   \<and> solveJoin_weight ieee 3 [1, 2, 3] (Some [d_one, d_one, d_two, d_one, d_one, d_half, d_four, d_one]) (1 + 4) = Inr d_four
   \<and> fp_div ieee (fp_div ieee (fp_mul ieee d_four d_eight) d_two) d_four = d_four
   \<and> d_eight \<noteq> d_four"
proof -
  have a: "solveJoin ieee True True \<lparr>table = [d_neg1, d_neg1, d_neg1, d_neg1], sols = 0, exponent = - 1074\<rparr>
          (Some [d_one, d_two, d_four, d_eight]) (Some [d_one, d_four, d_two]) [1, 2, 3] (Some [1, 3]) (Some [2, 3]) 3 2 2 0 4 1 4 4
          (Some [d_one, d_one, d_two, d_one, d_one, d_half, d_four, d_one]) d_two 4 8 1
     = Inr \<lparr>table = [d_neg1, d_eight, d_neg1, d_neg1], sols = 1, exponent = - 1074\<rparr>"
    by code_simp
  have h2: "solveJoin_tmp ieee True 3 (Some [d_one, d_two, d_four, d_eight]) 2 [1, 2, 3] (Some [1, 3]) 0 4
       (Some [d_one, d_one, d_two, d_one, d_one, d_half, d_four, d_one]) (1 + 4) = Inr d_four"
    by code_simp
  have h3: "solveJoin_tmp ieee True 3 (Some [d_one, d_four, d_two]) 2 [1, 2, 3] (Some [2, 3]) 1 4
       (Some [d_one, d_one, d_two, d_one, d_one, d_half, d_four, d_one]) (1 + 4) = Inr d_eight"
    by code_simp
  have h4: "solveJoin_weight ieee 3 [1, 2, 3] (Some [d_one, d_one, d_two, d_one, d_one, d_half, d_four, d_one]) (1 + 4) = Inr d_four"
    by code_simp
  have v: "fp_div ieee (fp_div ieee (fp_mul ieee d_four d_eight) d_two) d_four = d_four"
    by code_simp
  have c: "d_eight \<noteq> d_four" by code_simp
  from a h2 h3 h4 v c show ?thesis by (intro conjI)
qed

text \<open>
  C1, as amended. A worker of the exponent-enabled join kernel for which exactly one
  lookup is \<open>\<ge> 0\<close> multiplies that lookup with the value stored in its slot (1.0 in place
  of a negative stored value) and stores the product divided by \<open>weight\<close> when the lookup
  is that of the first child, and divided by \<open>value\<close> when it is that of the second. The
  counter goes up by 1 when the stored value was negative and the lookup is \<open>> 0\<close>, and
  down by 1 when the stored value was \<open>> 0\<close> and the lookup is zero.
\<close>

theorem solveJoin_one_in_range:
  assumes "gid + id_offset < max_id"
    and "solveJoin_tmp U array_type numV edge1 numVE1 variables edgeVariables1 minId1 maxId1
           weights (gid + id_offset) = Inr tmp1"
    and "solveJoin_tmp U array_type numV edge2 numVE2 variables edgeVariables2 minId2 maxId2
           weights (gid + id_offset) = Inr tmp2"
    and "solveJoin_weight U numV variables weights (gid + id_offset) = Inr weight"
    and "d_ge0 tmp1 \<noteq> d_ge0 tmp2"
    and "0 \<le> gid + id_offset - startIDNode"
    and "gid + id_offset - startIDNode < int (length (table st))"
    and "oldVal = table st ! nat (gid + id_offset - startIDNode)"
    and "tmp = (if d_ge0 tmp1 then tmp1 else tmp2)"
  shows "\<exists>st'. solveJoin U array_type False st edge1 edge2 variables edgeVariables1 edgeVariables2
           numV numVE1 numVE2 minId1 maxId1 minId2 maxId2 startIDNode weights val id_offset max_id
           gid = Inr st'
       \<and> table st' = (table st)[nat (gid + id_offset - startIDNode) :=
            (if d_ge0 tmp1
             then fp_div U (fp_mul U tmp1 (if d_lt0 oldVal then d_one else oldVal)) weight
             else fp_div U (fp_mul U tmp2 (if d_lt0 oldVal then d_one else oldVal)) val)]
       \<and> sols st' = (if d_lt0 oldVal then (if d_gt0 tmp then sols st + 1 else sols st)
                      else if d_gt0 oldVal then (if d_eq0 tmp then sols st - 1 else sols st)
                      else sols st)"
proof -
  let ?slot = "gid + id_offset - startIDNode"
  let ?new = "if d_ge0 tmp1
             then fp_div U (fp_mul U tmp1 (if d_lt0 oldVal then d_one else oldVal)) weight
             else fp_div U (fp_mul U tmp2 (if d_lt0 oldVal then d_one else oldVal)) val"
  let ?sols = "if d_lt0 oldVal then (if d_gt0 tmp then sols st + 1 else sols st)
                      else if d_gt0 oldVal then (if d_eq0 tmp then sols st - 1 else sols st)
                      else sols st"
  let ?st1 = "st\<lparr>table := (table st)[nat ?slot := ?new], sols := ?sols\<rparr>"
  have b: "solveJoin_branch U False st ?slot tmp1 tmp2 val weight = Inr ?st1"
  proof (cases "d_ge0 tmp1")
    case True
    with assms(5) have f: "\<not> d_ge0 tmp2" by simp
    from solveJoin_branch_first[OF True f assms(6,7), of U False val weight] True assms(8,9)
    show ?thesis by simp
  next
    case False
    with assms(5) have t: "d_ge0 tmp2" by simp
    from solveJoin_branch_second[OF False t assms(6,7), of U False val weight] False assms(8,9)
    show ?thesis by simp
  qed
  have r: "rd (table ?st1) ?slot = Inr (table ?st1 ! nat ?slot)"
    using assms(6,7) by (simp add: rd_in)
  have "solveJoin U array_type False st edge1 edge2 variables edgeVariables1 edgeVariables2
           numV numVE1 numVE2 minId1 maxId1 minId2 maxId2 startIDNode weights val id_offset max_id
           gid =
        (if array_type then Inr (?st1\<lparr>exponent := max (fp_ilogb U (table ?st1 ! nat ?slot)) (exponent ?st1)\<rparr>)
         else Inr ?st1)"
    unfolding solveJoin_eval[OF assms(1,2,3,4)] b fbind_Inr using r by (simp add: fbind_Inr)
  then show ?thesis by (cases array_type) auto
qed

theorem solveJoin_one_in_range_witness:
  "solveJoin_tmp ieee True 1 (Some [d_one, d_one]) 1 [1] (Some [1]) 0 2 None (0 + 0) = Inr d_one
   \<and> solveJoin_tmp ieee True 1 (Some [d_one, d_one]) 1 [1] (Some [1]) 2 4 None (0 + 0) = Inr d_neg1
   \<and> d_ge0 d_one \<and> \<not> d_ge0 d_neg1 \<and> d_lt0 d_neg1 \<and> d_gt0 d_one
   \<and> fp_div ieee (fp_mul ieee d_one d_one) d_one = d_one
   \<and> (\<exists>st'. solveJoin ieee True False \<lparr>table = [d_neg1, d_neg1], sols = 0, exponent = - 1074\<rparr>
          (Some [d_one, d_one]) (Some [d_one, d_one]) [1] (Some [1]) (Some [1]) 1 1 1 0 2 2 4 0
          None d_two 0 2 0 = Inr st'
        \<and> table st' = [d_one, d_neg1] \<and> sols st' = 1)"
proof -
  let ?st = "\<lparr>table = [d_neg1, d_neg1], sols = 0, exponent = - 1074\<rparr>"
  have h1: "(0::int) + 0 < 2" by simp
  have h2: "solveJoin_tmp ieee True 1 (Some [d_one, d_one]) 1 [1] (Some [1]) 0 2 None (0 + 0) = Inr d_one"
    by code_simp
  have h3: "solveJoin_tmp ieee True 1 (Some [d_one, d_one]) 1 [1] (Some [1]) 2 4 None (0 + 0) = Inr d_neg1"
    by code_simp
  have h4: "solveJoin_weight ieee 1 [1] None (0 + 0) = Inr d_one" by code_simp
  have g1: "d_ge0 d_one" by code_simp
  have g2: "\<not> d_ge0 d_neg1" by code_simp
  have g3: "d_lt0 d_neg1" by code_simp
  have g4: "d_gt0 d_one" by code_simp
  from g1 g2 have h5: "d_ge0 d_one \<noteq> d_ge0 d_neg1" by simp
  have h6: "(0::int) \<le> 0 + 0 - 0" by simp
  have h7: "(0::int) + 0 - 0 < int (length (table ?st))" by simp
  have h8: "d_neg1 = table ?st ! nat (0 + 0 - 0)" by simp
  have h9: "d_one = (if d_ge0 d_one then d_one else d_neg1)" using g1 by simp
  have v: "fp_div ieee (fp_mul ieee d_one d_one) d_one = d_one" by code_simp
  from solveJoin_one_in_range[OF h1 h2 h3 h4 h5 h6 h7 h8 h9, where val = d_two]
  obtain st' where st': "solveJoin ieee True False ?st
          (Some [d_one, d_one]) (Some [d_one, d_one]) [1] (Some [1]) (Some [1]) 1 1 1 0 2 2 4 0
          None d_two 0 2 0 = Inr st'"
    "table st' = (table ?st)[nat (0 + 0 - 0) :=
            (if d_ge0 d_one
             then fp_div ieee (fp_mul ieee d_one (if d_lt0 d_neg1 then d_one else d_neg1)) d_one
             else fp_div ieee (fp_mul ieee d_neg1 (if d_lt0 d_neg1 then d_one else d_neg1)) d_two)]"
    "sols st' = (if d_lt0 d_neg1 then (if d_gt0 d_one then sols ?st + 1 else sols ?st)
                      else if d_gt0 d_neg1 then (if d_eq0 d_one then sols ?st - 1 else sols ?st)
                      else sols ?st)"
    by blast
  from st'(2) g1 g3 v have t: "table st' = [d_one, d_neg1]" by simp
  from st'(3) g3 g4 have s: "sols st' = 1" by simp
  from h2 h3 g1 g2 g3 g4 v st'(1) t s show ?thesis by blast
qed

text \<open>
  The claim as stated fails: the first child alone in range (the chunk of the second
  holds the ids 2 and 3), lookup 1.0, stored value
  \<open>-1.0\<close>, \<open>weight = 1.0\<close> and \<open>value = 2.0\<close>. The kernel stores \<open>1.0 * 1.0 / 1.0 = 1.0\<close>;
  the product divided by both, \<open>1.0 * 1.0 / 2.0 / 1.0\<close>, is 0.5.
\<close>

theorem solveJoin_one_in_range_not_both_divisions:
  "solveJoin ieee True False \<lparr>table = [d_neg1, d_neg1], sols = 0, exponent = - 1074\<rparr>
     (Some [d_one, d_one]) (Some [d_one, d_one]) [1] (Some [1]) (Some [1]) 1 1 1 0 2 2 4 0
     None d_two 0 2 0 = Inr \<lparr>table = [d_one, d_neg1], sols = 1, exponent = 0\<rparr>
   \<and> fp_div ieee (fp_div ieee (fp_mul ieee d_one d_one) d_two) d_one = d_half
   \<and> d_half \<noteq> d_one"
proof -
  have a: "solveJoin ieee True False \<lparr>table = [d_neg1, d_neg1], sols = 0, exponent = - 1074\<rparr>
     (Some [d_one, d_one]) (Some [d_one, d_one]) [1] (Some [1]) (Some [1]) 1 1 1 0 2 2 4 0
     None d_two 0 2 0 = Inr \<lparr>table = [d_one, d_neg1], sols = 1, exponent = 0\<rparr>"
    by code_simp
  have b: "fp_div ieee (fp_div ieee (fp_mul ieee d_one d_one) d_two) d_one = d_half" by code_simp
  have c: "d_half \<noteq> d_one" by code_simp
  from a b c show ?thesis by blast
qed

lemma solveJoin_Inr_D:
  assumes "solveJoin U array_type no_exp st edge1 edge2 variables edgeVariables1 edgeVariables2
     numV numVE1 numVE2 minId1 maxId1 minId2 maxId2 startIDNode weights val id_offset max_id gid
     = Inr st'"
    and "gid + id_offset < max_id"
  shows "\<exists>tmp1 tmp2 weight st1.
      solveJoin_tmp U array_type numV edge1 numVE1 variables edgeVariables1 minId1 maxId1
           weights (gid + id_offset) = Inr tmp1
    \<and> solveJoin_tmp U array_type numV edge2 numVE2 variables edgeVariables2 minId2 maxId2
           weights (gid + id_offset) = Inr tmp2
    \<and> solveJoin_weight U numV variables weights (gid + id_offset) = Inr weight
    \<and> solveJoin_branch U no_exp st (gid + id_offset - startIDNode) tmp1 tmp2 val weight = Inr st1
    \<and> (if array_type \<and> \<not> no_exp then
                fbind (rd (table st1) (gid + id_offset - startIDNode)) (\<lambda>x.
                  Inr (st1\<lparr>exponent := max (fp_ilogb U x) (exponent st1)\<rparr>))
              else Inr st1) = Inr st'"
  using assms by (simp add: solveJoin_def Let_def fbind_eq_Inr)

lemma solveJoin_frame:
  assumes "solveJoin U array_type no_exp st edge1 edge2 variables edgeVariables1 edgeVariables2
     numV numVE1 numVE2 minId1 maxId1 minId2 maxId2 startIDNode weights val id_offset max_id gid
     = Inr st'"
  shows "length (table st') = length (table st) \<and>
         (\<forall>s. s \<noteq> nat (gid + id_offset - startIDNode) \<longrightarrow> table st' ! s = table st ! s)"
proof (cases "max_id \<le> gid + id_offset")
  case True
  from solveJoin_skip[OF True] assms show ?thesis by simp
next
  case False
  then have lt: "gid + id_offset < max_id" by simp
  from solveJoin_Inr_D[OF assms lt] obtain tmp1 tmp2 weight st1 where
    b: "solveJoin_branch U no_exp st (gid + id_offset - startIDNode) tmp1 tmp2 val weight = Inr st1"
    and e: "(if array_type \<and> \<not> no_exp then
                fbind (rd (table st1) (gid + id_offset - startIDNode)) (\<lambda>x.
                  Inr (st1\<lparr>exponent := max (fp_ilogb U x) (exponent st1)\<rparr>))
              else Inr st1) = Inr st'"
    by blast
  from e have "table st' = table st1"
    by (auto simp: fbind_eq_Inr split: if_splits)
  with solveJoin_branch_frame[OF b] show ?thesis by simp
qed

lemma launch_frame:
  assumes "\<And>s g s'. g \<in> set gs \<Longrightarrow> worker s (int g) = Inr s' \<Longrightarrow>
             length (table s') = length (table s) \<and> table s' ! k = table s ! k"
    and "launch worker gs st = Inr st'"
  shows "length (table st') = length (table st) \<and> table st' ! k = table st ! k"
  using assms
proof (induction gs arbitrary: st)
  case Nil
  then show ?case by simp
next
  case (Cons g gs)
  from Cons.prems(2) obtain s1 where s1: "worker st (int g) = Inr s1" "launch worker gs s1 = Inr st'"
    by (auto split: sum.splits)
  from Cons.prems(1)[of g st s1] s1(1)
  have a: "length (table s1) = length (table st) \<and> table s1 ! k = table st ! k" by simp
  have b: "length (table st') = length (table s1) \<and> table st' ! k = table s1 ! k"
    by (rule Cons.IH[OF _ s1(2)]) (use Cons.prems(1) in auto)
  from a b show ?case by simp
qed

lemma solveJoin_untouched:
  assumes "gid + id_offset < max_id"
    and "solveJoin_tmp U array_type numV edge1 numVE1 variables edgeVariables1 minId1 maxId1
           weights (gid + id_offset) = Inr tmp1"
    and "solveJoin_tmp U array_type numV edge2 numVE2 variables edgeVariables2 minId2 maxId2
           weights (gid + id_offset) = Inr tmp2"
    and "\<not> d_ge0 tmp1" and "\<not> d_ge0 tmp2"
    and "solveJoin U array_type no_exp st edge1 edge2 variables edgeVariables1 edgeVariables2
     numV numVE1 numVE2 minId1 maxId1 minId2 maxId2 startIDNode weights val id_offset max_id gid
     = Inr st'"
  shows "table st' = table st \<and> sols st' = sols st"
proof -
  from solveJoin_Inr_D[OF assms(6,1)] assms(2,3) obtain weight st1 where
    b: "solveJoin_branch U no_exp st (gid + id_offset - startIDNode) tmp1 tmp2 val weight = Inr st1"
    and e: "(if array_type \<and> \<not> no_exp then
                fbind (rd (table st1) (gid + id_offset - startIDNode)) (\<lambda>x.
                  Inr (st1\<lparr>exponent := max (fp_ilogb U x) (exponent st1)\<rparr>))
              else Inr st1) = Inr st'"
    by auto
  from b solveJoin_branch_none[OF assms(4,5)] have "st1 = st" by simp
  with e show ?thesis by (auto simp: fbind_eq_Inr split: if_splits)
qed

text \<open>
  C8. When both lookups of an id are negative (both projections outside the ranges of the
  children), the word of its slot is the same after the launch as before. The slots of
  the launch start at 0 (\<open>startIDNode \<le> id_offset\<close>), so that no two workers share one.
\<close>

theorem solveJoin_launch_out_of_range:
  assumes "solveJoin_launch U array_type no_exp st edge1 edge2 variables edgeVariables1
             edgeVariables2 numV numVE1 numVE2 minId1 maxId1 minId2 maxId2 startIDNode weights val
             id_offset max_id threads = Inr st'"
    and "gid < threads"
    and "solveJoin_tmp U array_type numV edge1 numVE1 variables edgeVariables1 minId1 maxId1
           weights (int gid + id_offset) = Inr tmp1"
    and "solveJoin_tmp U array_type numV edge2 numVE2 variables edgeVariables2 minId2 maxId2
           weights (int gid + id_offset) = Inr tmp2"
    and "\<not> d_ge0 tmp1" and "\<not> d_ge0 tmp2"
    and "startIDNode \<le> id_offset"
  shows "table st' ! nat (int gid + id_offset - startIDNode) =
         table st ! nat (int gid + id_offset - startIDNode)"
proof -
  let ?k = "nat (int gid + id_offset - startIDNode)"
  let ?w = "\<lambda>s g. solveJoin U array_type no_exp s edge1 edge2 variables edgeVariables1
                       edgeVariables2 numV numVE1 numVE2 minId1 maxId1 minId2 maxId2 startIDNode
                       weights val id_offset max_id g"
  have step: "length (table s') = length (table s) \<and> table s' ! ?k = table s ! ?k"
    if "g \<in> set [0..<threads]" "?w s (int g) = Inr s'" for s g s'
  proof (cases "g = gid")
    case True
    show ?thesis
    proof (cases "max_id \<le> int gid + id_offset")
      case skip: True
      from solveJoin_skip[OF skip] that(2) True show ?thesis by simp
    next
      case False
      then have lt: "int gid + id_offset < max_id" by simp
      from solveJoin_untouched[OF lt assms(3,4,5,6)] that(2) True show ?thesis by simp
    qed
  next
    case False
    with assms(7) have "nat (int g + id_offset - startIDNode) \<noteq> ?k" by simp
    with solveJoin_frame[OF that(2)] show ?thesis by metis
  qed
  from assms(1) have "launch ?w [0..<threads] st = Inr st'"
    by (simp add: solveJoin_launch_def)
  from launch_frame[of "[0..<threads]" ?w ?k, OF step this] show ?thesis by simp
qed

theorem solveJoin_launch_out_of_range_witness:
  "solveJoin_launch ieee True False \<lparr>table = [d_neg1, d_neg1], sols = 0, exponent = - 1074\<rparr>
      (Some [d_two, d_one]) (Some [d_one, d_zero]) [1] (Some [1]) (Some [1]) 1 1 1 0 1 0 1 0
      None d_two 0 2 2 = Inr \<lparr>table = [d_one, d_neg1], sols = 1, exponent = 0\<rparr>
   \<and> solveJoin_tmp ieee True 1 (Some [d_two, d_one]) 1 [1] (Some [1]) 0 1 None (int 1 + 0) = Inr d_neg1
   \<and> solveJoin_tmp ieee True 1 (Some [d_one, d_zero]) 1 [1] (Some [1]) 0 1 None (int 1 + 0) = Inr d_neg1
   \<and> \<not> d_ge0 d_neg1
   \<and> table \<lparr>table = [d_one, d_neg1], sols = 1, exponent = 0\<rparr> ! nat (int 1 + 0 - 0) = d_neg1"
proof -
  let ?st = "\<lparr>table = [d_neg1, d_neg1], sols = 0, exponent = - 1074\<rparr>"
  let ?st' = "\<lparr>table = [d_one, d_neg1], sols = 1, exponent = 0\<rparr>"
  have h1: "solveJoin_launch ieee True False ?st
      (Some [d_two, d_one]) (Some [d_one, d_zero]) [1] (Some [1]) (Some [1]) 1 1 1 0 1 0 1 0
      None d_two 0 2 2 = Inr ?st'"
    by code_simp
  have h2: "(1::nat) < 2" by simp
  have h3: "solveJoin_tmp ieee True 1 (Some [d_two, d_one]) 1 [1] (Some [1]) 0 1 None (int 1 + 0) = Inr d_neg1"
    by code_simp
  have h4: "solveJoin_tmp ieee True 1 (Some [d_one, d_zero]) 1 [1] (Some [1]) 0 1 None (int 1 + 0) = Inr d_neg1"
    by code_simp
  have h5: "\<not> d_ge0 d_neg1" by code_simp
  have h7: "(0::int) \<le> 0" by simp
  from solveJoin_launch_out_of_range[OF h1 h2 h3 h4 h5 h5 h7]
  have "table ?st' ! nat (int 1 + 0 - 0) = table ?st ! nat (int 1 + 0 - 0)" .
  then have "table ?st' ! nat (int 1 + 0 - 0) = d_neg1" by simp
  with h1 h3 h4 h5 show ?thesis by blast
qed

lemma solveJoin_branch_swap:
  assumes "d_ge0 tmp1 = d_ge0 tmp2" and "fp_mul U tmp1 tmp2 = fp_mul U tmp2 tmp1"
  shows "solveJoin_branch U no_exp st slot tmp1 tmp2 val weight =
         solveJoin_branch U no_exp st slot tmp2 tmp1 val weight"
proof (cases "d_ge0 tmp1")
  case True
  with assms(1) have "d_ge0 tmp2" by simp
  with True assms(2) show ?thesis by (simp add: solveJoin_branch_def conj_commute)
next
  case False
  with assms(1) have "\<not> d_ge0 tmp2" by simp
  with False show ?thesis by (simp add: solveJoin_branch_def)
qed

lemma solveJoin_swap:
  assumes "gid + id_offset < max_id \<longrightarrow>
            (\<exists>tmp1 tmp2.
               solveJoin_tmp U array_type numV edge1 numVE1 variables edgeVariables1 minId1 maxId1
                 weights (gid + id_offset) = Inr tmp1
             \<and> solveJoin_tmp U array_type numV edge2 numVE2 variables edgeVariables2 minId2 maxId2
                 weights (gid + id_offset) = Inr tmp2
             \<and> d_ge0 tmp1 = d_ge0 tmp2 \<and> fp_mul U tmp1 tmp2 = fp_mul U tmp2 tmp1)"
  shows "solveJoin U array_type no_exp st edge1 edge2 variables edgeVariables1 edgeVariables2
           numV numVE1 numVE2 minId1 maxId1 minId2 maxId2 startIDNode weights val id_offset max_id
           gid =
         solveJoin U array_type no_exp st edge2 edge1 variables edgeVariables2 edgeVariables1
           numV numVE2 numVE1 minId2 maxId2 minId1 maxId1 startIDNode weights val id_offset max_id
           gid"
proof (cases "max_id \<le> gid + id_offset")
  case True
  then show ?thesis by (simp add: solveJoin_skip)
next
  case False
  then have lt: "gid + id_offset < max_id" by simp
  with assms obtain tmp1 tmp2 where
    t1: "solveJoin_tmp U array_type numV edge1 numVE1 variables edgeVariables1 minId1 maxId1
                 weights (gid + id_offset) = Inr tmp1"
    and t2: "solveJoin_tmp U array_type numV edge2 numVE2 variables edgeVariables2 minId2 maxId2
                 weights (gid + id_offset) = Inr tmp2"
    and ge: "d_ge0 tmp1 = d_ge0 tmp2" and comm: "fp_mul U tmp1 tmp2 = fp_mul U tmp2 tmp1"
    by blast
  show ?thesis
  proof (cases "solveJoin_weight U numV variables weights (gid + id_offset)")
    case (Inl e)
    with lt t1 t2 show ?thesis by (simp add: solveJoin_def Let_def fbind_Inr fbind_Inl)
  next
    case (Inr weight)
    show ?thesis
      unfolding solveJoin_eval[OF lt t1 t2 Inr] solveJoin_eval[OF lt t2 t1 Inr]
        solveJoin_branch_swap[OF ge comm] ..
  qed
qed

lemma launch_cong:
  assumes "\<And>g s. g \<in> set gs \<Longrightarrow> w1 s (int g) = w2 s (int g)"
  shows "launch w1 gs st = launch w2 gs st"
  using assms
proof (induction gs arbitrary: st)
  case Nil
  then show ?case by simp
next
  case (Cons g gs)
  have h: "w1 st (int g) = w2 st (int g)" using Cons.prems by simp
  have t: "launch w1 gs s = launch w2 gs s" for s
    by (rule Cons.IH) (use Cons.prems in simp)
  show ?case by (simp add: h t split: sum.splits)
qed

text \<open>
  C7, as amended. When for every id of the launch the lookups of the two children are
  both \<open>\<ge> 0\<close> or both not (and the product of the two lookups does not depend on the
  order of the factors), the launch with the children exchanged gives the same result:
  the same table, counter and exponent, or the same fault.
\<close>

theorem solveJoin_launch_swap:
  assumes "\<forall>gid<threads. int gid + id_offset < max_id \<longrightarrow>
            (\<exists>tmp1 tmp2.
               solveJoin_tmp U array_type numV edge1 numVE1 variables edgeVariables1 minId1 maxId1
                 weights (int gid + id_offset) = Inr tmp1
             \<and> solveJoin_tmp U array_type numV edge2 numVE2 variables edgeVariables2 minId2 maxId2
                 weights (int gid + id_offset) = Inr tmp2
             \<and> d_ge0 tmp1 = d_ge0 tmp2 \<and> fp_mul U tmp1 tmp2 = fp_mul U tmp2 tmp1)"
  shows "solveJoin_launch U array_type no_exp st edge1 edge2 variables edgeVariables1
           edgeVariables2 numV numVE1 numVE2 minId1 maxId1 minId2 maxId2 startIDNode weights val
           id_offset max_id threads =
         solveJoin_launch U array_type no_exp st edge2 edge1 variables edgeVariables2
           edgeVariables1 numV numVE2 numVE1 minId2 maxId2 minId1 maxId1 startIDNode weights val
           id_offset max_id threads"
  unfolding solveJoin_launch_def
proof (rule launch_cong)
  fix g s assume "g \<in> set [0..<threads]"
  then have "g < threads" by simp
  with assms have "int g + id_offset < max_id \<longrightarrow>
            (\<exists>tmp1 tmp2.
               solveJoin_tmp U array_type numV edge1 numVE1 variables edgeVariables1 minId1 maxId1
                 weights (int g + id_offset) = Inr tmp1
             \<and> solveJoin_tmp U array_type numV edge2 numVE2 variables edgeVariables2 minId2 maxId2
                 weights (int g + id_offset) = Inr tmp2
             \<and> d_ge0 tmp1 = d_ge0 tmp2 \<and> fp_mul U tmp1 tmp2 = fp_mul U tmp2 tmp1)"
    by blast
  from solveJoin_swap[OF this]
  show "solveJoin U array_type no_exp s edge1 edge2 variables edgeVariables1 edgeVariables2
           numV numVE1 numVE2 minId1 maxId1 minId2 maxId2 startIDNode weights val id_offset max_id
           (int g) =
         solveJoin U array_type no_exp s edge2 edge1 variables edgeVariables2 edgeVariables1
           numV numVE2 numVE1 minId2 maxId2 minId1 maxId1 startIDNode weights val id_offset max_id
           (int g)" .
qed

theorem solveJoin_launch_swap_witness:
  "solveJoin_tmp ieee True 1 (Some [d_two, d_one]) 1 [1] (Some [1]) 0 2 None 0 = Inr d_two
   \<and> solveJoin_tmp ieee True 1 (Some [d_half, d_zero]) 1 [1] (Some [1]) 0 2 None 0 = Inr d_half
   \<and> solveJoin_tmp ieee True 1 (Some [d_two, d_one]) 1 [1] (Some [1]) 0 2 None 1 = Inr d_one
   \<and> solveJoin_tmp ieee True 1 (Some [d_half, d_zero]) 1 [1] (Some [1]) 0 2 None 1 = Inr d_zero
   \<and> solveJoin_launch ieee True False \<lparr>table = [d_neg1, d_neg1], sols = 0, exponent = - 1074\<rparr>
        (Some [d_two, d_one]) (Some [d_half, d_zero]) [1] (Some [1]) (Some [1]) 1 1 1 0 2 0 2 0
        None d_two 0 2 2 = Inr \<lparr>table = [d_half, d_zero], sols = 1, exponent = - 1\<rparr>
   \<and> solveJoin_launch ieee True False \<lparr>table = [d_neg1, d_neg1], sols = 0, exponent = - 1074\<rparr>
        (Some [d_half, d_zero]) (Some [d_two, d_one]) [1] (Some [1]) (Some [1]) 1 1 1 0 2 0 2 0
        None d_two 0 2 2 = Inr \<lparr>table = [d_half, d_zero], sols = 1, exponent = - 1\<rparr>"
proof -
  let ?st = "\<lparr>table = [d_neg1, d_neg1], sols = 0, exponent = - 1074\<rparr>"
  have a0: "solveJoin_tmp ieee True 1 (Some [d_two, d_one]) 1 [1] (Some [1]) 0 2 None 0 = Inr d_two"
    by code_simp
  have b0: "solveJoin_tmp ieee True 1 (Some [d_half, d_zero]) 1 [1] (Some [1]) 0 2 None 0 = Inr d_half"
    by code_simp
  have a1: "solveJoin_tmp ieee True 1 (Some [d_two, d_one]) 1 [1] (Some [1]) 0 2 None 1 = Inr d_one"
    by code_simp
  have b1: "solveJoin_tmp ieee True 1 (Some [d_half, d_zero]) 1 [1] (Some [1]) 0 2 None 1 = Inr d_zero"
    by code_simp
  have c0: "d_ge0 d_two = d_ge0 d_half" "fp_mul ieee d_two d_half = fp_mul ieee d_half d_two"
    by code_simp+
  have c1: "d_ge0 d_one = d_ge0 d_zero" "fp_mul ieee d_one d_zero = fp_mul ieee d_zero d_one"
    by code_simp+
  have h: "\<forall>gid<2. int gid + 0 < 2 \<longrightarrow>
            (\<exists>tmp1 tmp2.
               solveJoin_tmp ieee True 1 (Some [d_two, d_one]) 1 [1] (Some [1]) 0 2
                 None (int gid + 0) = Inr tmp1
             \<and> solveJoin_tmp ieee True 1 (Some [d_half, d_zero]) 1 [1] (Some [1]) 0 2
                 None (int gid + 0) = Inr tmp2
             \<and> d_ge0 tmp1 = d_ge0 tmp2 \<and> fp_mul ieee tmp1 tmp2 = fp_mul ieee tmp2 tmp1)"
  proof (intro allI impI)
    fix gid :: nat assume "gid < 2"
    then consider "gid = 0" | "gid = 1" by arith
    then show "\<exists>tmp1 tmp2.
               solveJoin_tmp ieee True 1 (Some [d_two, d_one]) 1 [1] (Some [1]) 0 2
                 None (int gid + 0) = Inr tmp1
             \<and> solveJoin_tmp ieee True 1 (Some [d_half, d_zero]) 1 [1] (Some [1]) 0 2
                 None (int gid + 0) = Inr tmp2
             \<and> d_ge0 tmp1 = d_ge0 tmp2 \<and> fp_mul ieee tmp1 tmp2 = fp_mul ieee tmp2 tmp1"
    proof cases
      case 1
      with a0 b0 c0 show ?thesis by simp
    next
      case 2
      with a1 b1 c1 show ?thesis by simp
    qed
  qed
  have l: "solveJoin_launch ieee True False ?st
        (Some [d_two, d_one]) (Some [d_half, d_zero]) [1] (Some [1]) (Some [1]) 1 1 1 0 2 0 2 0
        None d_two 0 2 2 = Inr \<lparr>table = [d_half, d_zero], sols = 1, exponent = - 1\<rparr>"
    by code_simp
  from solveJoin_launch_swap[OF h, of False ?st 0 d_two] l
  have "solveJoin_launch ieee True False ?st
        (Some [d_half, d_zero]) (Some [d_two, d_one]) [1] (Some [1]) (Some [1]) 1 1 1 0 2 0 2 0
        None d_two 0 2 2 = Inr \<lparr>table = [d_half, d_zero], sols = 1, exponent = - 1\<rparr>"
    by simp
  with a0 b0 a1 b1 l show ?thesis by blast
qed

text \<open>
  The claim as stated fails: a bag of one variable, child tables \<open>[1.0, 1.0]\<close>, the chunk
  of one child holding the ids 0 and 1 and the chunk of the other the ids 2 and 3, stored
  values \<open>-1.0\<close>, \<open>value = 2.0\<close>, no weights. With the child in range as the first child
  the kernel stores \<open>1.0 * 1.0 / weight = 1.0\<close> in both slots, as the second child
  \<open>1.0 * 1.0 / value = 0.5\<close>.
\<close>

theorem solveJoin_swap_differs:
  "solveJoin_launch ieee True False \<lparr>table = [d_neg1, d_neg1], sols = 0, exponent = - 1074\<rparr>
     (Some [d_one, d_one]) (Some [d_one, d_one]) [1] (Some [1]) (Some [1]) 1 1 1 0 2 2 4 0
     None d_two 0 2 2 = Inr \<lparr>table = [d_one, d_one], sols = 2, exponent = 0\<rparr>
   \<and> solveJoin_launch ieee True False \<lparr>table = [d_neg1, d_neg1], sols = 0, exponent = - 1074\<rparr>
     (Some [d_one, d_one]) (Some [d_one, d_one]) [1] (Some [1]) (Some [1]) 1 1 1 2 4 0 2 0
     None d_two 0 2 2 = Inr \<lparr>table = [d_half, d_half], sols = 2, exponent = - 1\<rparr>
   \<and> d_one \<noteq> d_half"
proof -
  have a: "solveJoin_launch ieee True False \<lparr>table = [d_neg1, d_neg1], sols = 0, exponent = - 1074\<rparr>
     (Some [d_one, d_one]) (Some [d_one, d_one]) [1] (Some [1]) (Some [1]) 1 1 1 0 2 2 4 0
     None d_two 0 2 2 = Inr \<lparr>table = [d_one, d_one], sols = 2, exponent = 0\<rparr>"
    by code_simp
  have b: "solveJoin_launch ieee True False \<lparr>table = [d_neg1, d_neg1], sols = 0, exponent = - 1074\<rparr>
     (Some [d_one, d_one]) (Some [d_one, d_one]) [1] (Some [1]) (Some [1]) 1 1 1 2 4 0 2 0
     None d_two 0 2 2 = Inr \<lparr>table = [d_half, d_half], sols = 2, exponent = - 1\<rparr>"
    by code_simp
  have c: "d_one \<noteq> d_half" by code_simp
  from a b c show ?thesis by blast
qed

subsection \<open>The exponent cell\<close>










subsection \<open>solveIntroduceF\<close>

text \<open>An assignment that fails \<^verbatim>\<open>checkBag\<close> contributes 0.0 to the sum of its worker.\<close>

lemma solveIntroduceF_unsat:
  assumes "checkBag clauses numVarsC numclauses aid numV variables \<noteq> 1"
    and "solveIntroduceF U array_type clauses numVarsC numclauses numV edge numVE variables
           edgeVariables minId maxId weights aid = Inr x"
  shows "x = d_zero"
proof -
  from assms(2) obtain tmp where
    "(if d_gt0 tmp then
        (if checkBag clauses numVarsC numclauses aid numV variables \<noteq> 1 then Inr d_zero
         else Inr tmp)
      else Inr d_zero) = (Inr x :: fault + double)"
    unfolding solveIntroduceF_def fbind_eq_Inr by blast
  with assms(1) show ?thesis by (simp split: if_splits)
qed

subsection \<open>The trie of counts\<close>

text \<open>
  \<^verbatim>\<open>setCount\<close> and \<^verbatim>\<open>getCount\<close> walk the same path of child indices; the lemmas below
  follow one walk through a well-formed trie, then a launch of \<^verbatim>\<open>combineTree\<close>.
\<close>

lemma lo_mask: "(0xFFFFFFFF :: 64 word) = mask 32"
  by (simp add: mask_eq_exp_minus_1)

lemma hi_mask: "(0xFFFFFFFF00000000 :: 64 word) = push_bit 32 (mask 32)"
  by (simp add: mask_eq_exp_minus_1 push_bit_eq_mult)

lemma half_set_half_same: "half (set_half w k v) k = v"
  unfolding half_def set_half_def lo_mask hi_mask
  by (cases k; simp; rule bit_word_eqI; auto simp: bit_simps dest: bit_imp_le_length)

lemma half_set_half_other: "half (set_half w k v) (\<not> k) = half w (\<not> k)"
  unfolding half_def set_half_def lo_mask hi_mask
  by (cases k; simp; rule bit_word_eqI; auto simp: bit_simps dest: bit_imp_le_length)

lemma half_zero: "half 0 k = 0"
  by (simp add: half_def)

lemma getCount_loop_step:
  "i < n \<Longrightarrow> getCount_loop aid t n i x =
     (if child t x (bit aid (n - i - 1)) = 0 then d_zero
      else getCount_loop aid t n (Suc i) (child t x (bit aid (n - i - 1))))"
  by (subst getCount_loop.simps) (simp add: child_def Let_def)

lemma getCount_loop_done:
  "\<not> i < n \<Longrightarrow> getCount_loop aid t n i x = t ! x"
  by (subst getCount_loop.simps) simp

lemma getCount_loop_from:
  "i \<le> n \<Longrightarrow> getCount_loop aid t n i x = getCount_from t aid (n - i) x"
proof (induction "n - i" arbitrary: i x)
  case 0
  then have a: "\<not> i < n" and b: "n - i = 0" by simp_all
  show ?case unfolding getCount_loop_done[OF a] b by simp
next
  case (Suc d)
  then have lt: "i < n" and d1: "n - i = Suc d" and d2: "n - i - 1 = d" and d3: "d = n - Suc i"
    and le: "Suc i \<le> n" by simp_all
  have ih: "getCount_loop aid t n (Suc i) y = getCount_from t aid d y" for y
    using Suc.hyps(1)[OF d3 le, of y] d3 by simp
  show ?case unfolding getCount_loop_step[OF lt] d1 d2 ih by simp
qed

lemma getCount_from_eq: "getCount aid t n = getCount_from t aid n 0"
  by (simp add: getCount_def getCount_loop_from)

lemma nodes_hd: "x \<in> set (nodes t d x)"
  by (cases d) simp_all

lemma frame_nodes_from:
  assumes "\<forall>j \<in> set (nodes t d x). t' ! j = t ! j"
  shows "nodes t' d x = nodes t d x \<and> getCount_from t' aid d x = getCount_from t aid d x"
  using assms
proof (induction d arbitrary: x)
  case 0
  then show ?case by simp
next
  case (Suc d)
  from Suc.prems have x: "t' ! x = t ! x" by simp
  then have c: "child t' x k = child t x k" for k by (simp add: child_def)
  have sub: "nodes t' d (child t x k) = nodes t d (child t x k) \<and>
        getCount_from t' aid d (child t x k) = getCount_from t aid d (child t x k)"
    if "child t x k \<noteq> 0" for k
  proof (rule Suc.IH)
    show "\<forall>j\<in>set (nodes t d (child t x k)). t' ! j = t ! j"
      using Suc.prems that by (cases k) auto
  qed
  show ?case using sub[of False] sub[of True] sub[of "bit aid d"] by (simp add: c)
qed

lemma take_bit_Suc_eq_iff:
  "(take_bit (Suc k) (a::int) = take_bit (Suc k) b) = (bit a k = bit b k \<and> take_bit k a = take_bit k b)"
proof -
  have "(take_bit (Suc k) a = take_bit (Suc k) b) = (\<forall>j<Suc k. bit a j = bit b j)"
    by (auto simp: bit_eq_iff bit_take_bit_iff)
  also have "\<dots> = (bit a k = bit b k \<and> (\<forall>j<k. bit a j = bit b j))"
    by (auto simp: less_Suc_eq)
  also have "(\<forall>j<k. bit a j = bit b j) = (take_bit k a = take_bit k b)"
    by (auto simp: bit_eq_iff bit_take_bit_iff)
  finally show ?thesis .
qed

lemma unat_child_index:
  assumes "c < 2 ^ 32"
  shows "unat (word_of_nat c :: 32 word) = c" and "uint (word_of_nat c :: 32 word) = int c"
proof -
  show u: "unat (word_of_nat c :: 32 word) = c"
    by (rule of_nat_inverse[OF refl]) (use assms in simp)
  show "uint (word_of_nat c :: 32 word) = int c"
    unfolding uint_nat u ..
qed

lemma half_set_half_zero:
  "half (set_half 0 b v) b' = (if b' = b then v else 0)"
proof (cases "b' = b")
  case True
  then show ?thesis by (simp add: half_set_half_same)
next
  case False
  then have "b' = (\<not> b)" by simp
  then show ?thesis using half_set_half_other[of 0 b v] by (simp add: half_zero)
qed

lemma setCount_loop_done:
  "\<not> i < n \<Longrightarrow> setCount_loop aid n i t ts x val = (t, ts, x)"
  by (subst setCount_loop.simps) simp

lemma setCount_loop_existing:
  assumes "i < n" "child t x (bit aid (n - i - 1)) \<noteq> 0"
  shows "setCount_loop aid n i t ts x 0 =
         setCount_loop aid n (Suc i) t ts (child t x (bit aid (n - i - 1))) 0"
proof -
  from assms(2) have nz: "half (t ! x) (bit aid (n - i - 1)) \<noteq> 0"
    by (auto simp: child_def)
  then have "uint (half (t ! x) (bit aid (n - i - 1))) \<noteq> 0"
    by (simp add: uint_0_iff)
  with assms(1) nz show ?thesis
    by (subst setCount_loop.simps) (simp add: Let_def child_def)
qed

lemma setCount_loop_install:
  assumes "i < n" "child t x (bit aid (n - i - 1)) = 0" "x < length t"
    and "c < 2 ^ 32" "c \<noteq> 0"
    and "val = 0 \<and> int c = ts + 1 \<and> ts1 = ts + 1 \<or> val = int c \<and> ts1 = ts"
  shows "setCount_loop aid n i t ts x val =
         setCount_loop aid n (Suc i)
           (t[x := set_half (t ! x) (bit aid (n - i - 1)) (word_of_nat c)])
           (if i < n - 1 then ts1 + 1 else ts1) c
           (if i < n - 1 then ts1 + 1 else int c)"
proof -
  let ?b = "bit aid (n - i - 1)"
  let ?t1 = "t[x := set_half (t ! x) ?b (word_of_nat c)]"
  from assms(2) have z: "half (t ! x) ?b = 0" by (simp add: child_def unat_eq_0)
  have h: "half (?t1 ! x) ?b = word_of_nat c"
    using assms(3) by (simp add: half_set_half_same)
  note u = unat_child_index[OF assms(4)]
  have ne: "int c \<noteq> 0" using assms(5) by simp
  from assms(6) show ?thesis
  proof
    assume a: "val = 0 \<and> int c = ts + 1 \<and> ts1 = ts + 1"
    then have w: "(word_of_int (ts + 1) :: 32 word) = word_of_nat c"
      by (metis of_int_of_nat_eq)
    have "setCount_loop aid n i t ts x 0 =
         setCount_loop aid n (Suc i) ?t1
           (if uint (half (?t1 ! x) ?b) = ts + 1 \<and> i < n - 1 then ts + 1 + 1 else ts + 1)
           (unat (half (?t1 ! x) ?b))
           (if uint (half (?t1 ! x) ?b) = ts + 1 \<and> i < n - 1 then ts + 1 + 1 else ts + 1)"
      by (subst setCount_loop.simps) (simp only: assms(1) z w Let_def if_True simp_thms)
    then show ?thesis unfolding h u using a by simp
  next
    assume a: "val = int c \<and> ts1 = ts"
    have "setCount_loop aid n i t ts x (int c) =
         setCount_loop aid n (Suc i) ?t1
           (if uint (half (?t1 ! x) ?b) = int c \<and> i < n - 1 then ts + 1 else ts)
           (unat (half (?t1 ! x) ?b))
           (if uint (half (?t1 ! x) ?b) = int c \<and> i < n - 1 then ts + 1 else int c)"
      by (subst setCount_loop.simps)
         (simp only: assms(1) z ne Let_def if_True if_False simp_thms of_int_of_nat_eq)
    then show ?thesis unfolding h u using a by simp
  qed
qed

lemma setCount_loop_chain:
  assumes "i < n" "\<forall>j. x \<le> j \<and> j < length t \<longrightarrow> t ! j = 0"
    and "x + (n - i) < length t" "x + (n - i) < 2 ^ 32"
  shows "\<exists>t'. setCount_loop aid n i t (int x + 1) x (int x + 1)
               = (t', int (x + (n - i)), x + (n - i))
     \<and> length t' = length t
     \<and> (\<forall>j. j < x \<or> x + (n - i) \<le> j \<longrightarrow> t' ! j = t ! j)
     \<and> (\<forall>m<n - i. t' ! (x + m) =
            set_half 0 (bit aid (n - i - 1 - m)) (word_of_nat (x + m + 1)))"
  using assms
proof (induction "n - i" arbitrary: i x t)
  case 0
  then show ?case by simp
next
  case (Suc d)
  let ?b = "bit aid (n - i - 1)"
  let ?t1 = "t[x := set_half (t ! x) ?b (word_of_nat (x + 1))]"
  from Suc.hyps(2) have d: "n - i = Suc d" by simp
  from Suc.prems(3) d have xl: "x < length t" by simp
  with Suc.prems(2) have tx: "t ! x = 0" by simp
  then have c0: "child t x ?b = 0" by (simp add: child_def half_zero)
  from Suc.prems(4) d have c32: "x + 1 < 2 ^ 32" by simp
  have step: "setCount_loop aid n i t (int x + 1) x (int x + 1) =
         setCount_loop aid n (Suc i) ?t1
           (if i < n - 1 then (int x + 1) + 1 else int x + 1) (x + 1)
           (if i < n - 1 then (int x + 1) + 1 else int (x + 1))"
    by (rule setCount_loop_install[OF Suc.prems(1) c0 xl c32]) simp_all
  have t1x: "?t1 ! x = set_half 0 ?b (word_of_nat (x + 1))" using xl tx by simp
  show ?case
  proof (cases "d = 0")
    case True
    with d have last: "\<not> i < n - 1" "\<not> Suc i < n" "n - i = 1" by simp_all
    have r: "setCount_loop aid n i t (int x + 1) x (int x + 1) = (?t1, int (x + 1), x + 1)"
      unfolding step using last by (simp add: setCount_loop_done)
    have "\<forall>m<n - i. ?t1 ! (x + m) = set_half 0 (bit aid (n - i - 1 - m)) (word_of_nat (x + m + 1))"
      using last t1x by simp
    with r last show ?thesis by simp
  next
    case False
    with d have more: "i < n - 1" "Suc i < n" and d': "d = n - Suc i" by simp_all
    have fresh1: "\<forall>j. x + 1 \<le> j \<and> j < length ?t1 \<longrightarrow> ?t1 ! j = 0"
      using Suc.prems(2) by simp
    have cap1: "x + 1 + (n - Suc i) < length ?t1" "x + 1 + (n - Suc i) < 2 ^ 32"
      using Suc.prems(3,4) more by simp_all
    from Suc.hyps(1)[OF d' more(2) fresh1 cap1]
    obtain t' where t': "setCount_loop aid n (Suc i) ?t1 (int (x + 1) + 1) (x + 1) (int (x + 1) + 1)
               = (t', int (x + 1 + (n - Suc i)), x + 1 + (n - Suc i))"
      "length t' = length ?t1"
      "\<forall>j. j < x + 1 \<or> x + 1 + (n - Suc i) \<le> j \<longrightarrow> t' ! j = ?t1 ! j"
      "\<forall>m<n - Suc i. t' ! (x + 1 + m) =
            set_half 0 (bit aid (n - Suc i - 1 - m)) (word_of_nat (x + 1 + m + 1))"
      by blast
    have e: "x + 1 + (n - Suc i) = x + (n - i)" using more by simp
    have r: "setCount_loop aid n i t (int x + 1) x (int x + 1) = (t', int (x + (n - i)), x + (n - i))"
      unfolding step using more t'(1) e by (simp add: add.commute add.left_commute)
    have fr: "\<forall>j. j < x \<or> x + (n - i) \<le> j \<longrightarrow> t' ! j = t ! j"
    proof (intro allI impI)
      fix j assume j: "j < x \<or> x + (n - i) \<le> j"
      then have "j < x + 1 \<or> x + 1 + (n - Suc i) \<le> j" using e by auto
      with t'(3) have "t' ! j = ?t1 ! j" by blast
      moreover from j d have "j \<noteq> x" by auto
      ultimately show "t' ! j = t ! j" by simp
    qed
    have ch: "\<forall>m<n - i. t' ! (x + m) =
            set_half 0 (bit aid (n - i - 1 - m)) (word_of_nat (x + m + 1))"
    proof (intro allI impI)
      fix m assume m: "m < n - i"
      show "t' ! (x + m) = set_half 0 (bit aid (n - i - 1 - m)) (word_of_nat (x + m + 1))"
      proof (cases m)
        case 0
        from t'(3) have "t' ! x = ?t1 ! x" by simp
        with t1x 0 show ?thesis by simp
      next
        case (Suc m')
        with m more have "m' < n - Suc i" by simp
        with t'(4) have "t' ! (x + 1 + m') =
            set_half 0 (bit aid (n - Suc i - 1 - m')) (word_of_nat (x + 1 + m' + 1))" by blast
        moreover have "n - Suc i - 1 - m' = n - i - 1 - m" using Suc by simp
        ultimately show ?thesis using Suc by (simp add: add.commute add.left_commute)
      qed
    qed
    from r t'(2) fr ch show ?thesis by simp
  qed
qed

lemma chain_nodes_from:
  assumes "\<forall>m<k. t ! (x + m) = set_half 0 (bit aid (k - 1 - m)) (word_of_nat (x + m + 1))"
    and "x + k < 2 ^ 32"
  shows "nodes t k x = [x..<x + k + 1]
     \<and> getCount_from t aid' k x =
         (if take_bit k aid' = take_bit k aid then t ! (x + k) else d_zero)"
  using assms
proof (induction k arbitrary: x)
  case 0
  then show ?case by simp
next
  case (Suc k)
  from Suc.prems(1) have tx: "t ! x = set_half 0 (bit aid k) (word_of_nat (x + 1))"
    by force
  from Suc.prems(2) have c32: "x + 1 < 2 ^ 32" by simp
  have ch: "child t x b = (if b = bit aid k then x + 1 else 0)" for b
    unfolding child_def tx half_set_half_zero using unat_child_index(1)[OF c32] by simp
  have rest: "\<forall>m<k. t ! (x + 1 + m) = set_half 0 (bit aid (k - 1 - m)) (word_of_nat (x + 1 + m + 1))"
  proof (intro allI impI)
    fix m assume "m < k"
    then have "Suc m < Suc k" by simp
    with Suc.prems(1) have "t ! (x + Suc m) =
        set_half 0 (bit aid (Suc k - 1 - Suc m)) (word_of_nat (x + Suc m + 1))" by blast
    then show "t ! (x + 1 + m) = set_half 0 (bit aid (k - 1 - m)) (word_of_nat (x + 1 + m + 1))"
      by (simp add: add.commute add.left_commute)
  qed
  from Suc.prems(2) have "x + 1 + k < 2 ^ 32" by simp
  from Suc.IH[OF rest this]
  have ih: "nodes t k (x + 1) = [x + 1..<x + 1 + k + 1]"
    "getCount_from t aid' k (x + 1) =
         (if take_bit k aid' = take_bit k aid then t ! (x + 1 + k) else d_zero)"
    by simp_all
  have n: "nodes t (Suc k) x = x # nodes t k (x + 1)"
    by (cases "bit aid k") (simp_all add: ch)
  have "[x..<x + Suc k + 1] = x # [x + 1..<x + 1 + k + 1]"
    by (simp add: upt_rec)
  with n ih(1) have N: "nodes t (Suc k) x = [x..<x + Suc k + 1]" by simp
  have G: "getCount_from t aid' (Suc k) x =
         (if take_bit (Suc k) aid' = take_bit (Suc k) aid then t ! (x + Suc k) else d_zero)"
    unfolding take_bit_Suc_eq_iff using ih(2) by (simp add: ch)
  from N G show ?case by simp
qed

lemma nodes_Suc_split:
  "nodes t (Suc d) x =
     x # (if b then (if child t x (\<not> b) = 0 then [] else nodes t d (child t x (\<not> b)))
                     @ (if child t x b = 0 then [] else nodes t d (child t x b))
          else (if child t x b = 0 then [] else nodes t d (child t x b))
                @ (if child t x (\<not> b) = 0 then [] else nodes t d (child t x (\<not> b))))"
  by (cases b) simp_all

lemma lift_parent:
  fixes ts :: nat
  assumes dist: "distinct (nodes t (Suc d) x)"
    and bound: "\<forall>j\<in>set (nodes t (Suc d) x). j \<le> ts"
    and M: "M = (if child t x b = 0 then [] else nodes t d (child t x b))"
    and cb: "child t'' x b = c'" "c' \<noteq> 0"
    and co: "child t'' x (\<not> b) = child t x (\<not> b)"
    and frame: "\<forall>j. j \<le> ts \<and> j \<noteq> x \<and> j \<notin> set M \<longrightarrow> t'' ! j = t ! j"
    and sd: "distinct (nodes t'' d c')"
    and ss: "set (nodes t'' d c') = set M \<union> R" "\<forall>r\<in>R. ts < r"
    and sg: "\<forall>aid'. getCount_from t'' aid' d c' =
               (if take_bit d aid' = take_bit d aid then v
                else if child t x b = 0 then d_zero
                else getCount_from t aid' d (child t x b))"
    and b: "bit aid d = b"
  shows "distinct (nodes t'' (Suc d) x)
     \<and> set (nodes t'' (Suc d) x) = set (nodes t (Suc d) x) \<union> R
     \<and> (\<forall>aid'. getCount_from t'' aid' (Suc d) x =
           (if take_bit (Suc d) aid' = take_bit (Suc d) aid then v
            else getCount_from t aid' (Suc d) x))"
proof -
  let ?c2 = "child t x (\<not> b)"
  let ?N2 = "if ?c2 = 0 then [] else nodes t d ?c2"
  have old: "nodes t (Suc d) x = x # (if b then ?N2 @ M else M @ ?N2)"
    unfolding M by (rule nodes_Suc_split)
  from dist old have xM: "x \<notin> set M" and xN: "x \<notin> set ?N2" and dN: "distinct ?N2"
    and MN: "set M \<inter> set ?N2 = {}"
    by (auto split: if_splits)
  from bound old have bx: "x \<le> ts" and bM: "\<forall>j\<in>set M. j \<le> ts" and bN: "\<forall>j\<in>set ?N2. j \<le> ts"
    by (auto split: if_splits)
  have keep: "\<forall>j\<in>set ?N2. t'' ! j = t ! j"
  proof
    fix j assume j: "j \<in> set ?N2"
    with bN xN MN have "j \<le> ts \<and> j \<noteq> x \<and> j \<notin> set M" by auto
    with frame show "t'' ! j = t ! j" by blast
  qed
  have sub2: "nodes t'' d ?c2 = nodes t d ?c2 \<and>
              getCount_from t'' aid' d ?c2 = getCount_from t aid' d ?c2" if "?c2 \<noteq> 0" for aid'
    by (rule frame_nodes_from) (use keep that in simp)
  have N2': "(if child t'' x (\<not> b) = 0 then [] else nodes t'' d (child t'' x (\<not> b))) = ?N2"
    using sub2 co by simp
  have Mb': "(if child t'' x b = 0 then [] else nodes t'' d (child t'' x b)) = nodes t'' d c'"
    using cb by simp
  have new: "nodes t'' (Suc d) x = x # (if b then ?N2 @ nodes t'' d c' else nodes t'' d c' @ ?N2)"
    unfolding nodes_Suc_split[of t'' d x b] N2' Mb' ..
  have xR: "x \<notin> R" using ss(2) bx by auto
  have RN: "R \<inter> set ?N2 = {}" using ss(2) bN by fastforce
  have D: "distinct (nodes t'' (Suc d) x)"
    unfolding new using sd dN xM xN xR MN RN ss(1) by (cases b) auto
  have S: "set (nodes t'' (Suc d) x) = set (nodes t (Suc d) x) \<union> R"
    unfolding new old using ss(1) by (cases b) auto
  have G: "getCount_from t'' aid' (Suc d) x =
           (if take_bit (Suc d) aid' = take_bit (Suc d) aid then v
            else getCount_from t aid' (Suc d) x)" for aid'
  proof (cases "bit aid' d = b")
    case True
    then have "getCount_from t'' aid' (Suc d) x = getCount_from t'' aid' d c'"
      using cb by simp
    also have "\<dots> = (if take_bit d aid' = take_bit d aid then v
                else if child t x b = 0 then d_zero
                else getCount_from t aid' d (child t x b))"
      using sg by blast
    also have "\<dots> = (if take_bit (Suc d) aid' = take_bit (Suc d) aid then v
            else getCount_from t aid' (Suc d) x)"
      unfolding take_bit_Suc_eq_iff using True b by simp
    finally show ?thesis .
  next
    case False
    then have nb: "bit aid' d = (\<not> b)" by simp
    have ne: "take_bit (Suc d) aid' \<noteq> take_bit (Suc d) aid"
      unfolding take_bit_Suc_eq_iff using False b by simp
    have "getCount_from t'' aid' (Suc d) x = getCount_from t aid' (Suc d) x"
      using sub2[of aid'] co nb by simp
    with ne show ?thesis by simp
  qed
  from D S G show ?thesis by blast
qed

lemma setCount_loop_old:
  fixes ts :: nat
  assumes "i \<le> n"
    and "distinct (nodes t (n - i) x)"
    and "\<forall>j\<in>set (nodes t (n - i) x). j \<le> ts \<and> j < length t"
    and "\<forall>j. ts < j \<and> j < length t \<longrightarrow> t ! j = 0"
    and "n - i = 0 \<or> (ts + missing_nodes t aid (n - i) x < length t
                     \<and> ts + missing_nodes t aid (n - i) x < 2 ^ 32)"
  shows "\<exists>t' ts' leaf. setCount_loop aid n i t (int ts) x 0 = (t', int ts', leaf)
      \<and> length t' = length t \<and> ts' = ts + missing_nodes t aid (n - i) x \<and> leaf < length t
      \<and> (\<forall>aid'. getCount_from (t'[leaf := v]) aid' (n - i) x =
            (if take_bit (n - i) aid' = take_bit (n - i) aid then v
             else getCount_from t aid' (n - i) x))
      \<and> distinct (nodes (t'[leaf := v]) (n - i) x)
      \<and> set (nodes (t'[leaf := v]) (n - i) x) = set (nodes t (n - i) x) \<union> {ts<..ts'}
      \<and> (\<forall>j. j \<notin> set (nodes t (n - i) x) \<and> (j \<le> ts \<or> ts' < j) \<longrightarrow>
             (t'[leaf := v]) ! j = t ! j)"
  using assms
proof (induction "n - i" arbitrary: i x)
  case 0
  then have d0: "n - i = 0" and ni: "\<not> i < n" by simp_all
  from 0(4) d0 have xl: "x < length t" by simp
  have r: "setCount_loop aid n i t (int ts) x 0 = (t, int ts, x)"
    by (rule setCount_loop_done[OF ni])
  show ?case
    apply (rule exI[of _ t], rule exI[of _ ts], rule exI[of _ x])
    unfolding d0 using r xl by simp
next
  case (Suc d)
  from Suc.hyps(2) have d: "n - i = Suc d" and lt: "i < n" and d1: "n - i - 1 = d"
    and d': "d = n - Suc i" and le': "Suc i \<le> n" by simp_all
  let ?b = "bit aid d"
  let ?c = "child t x ?b"
  let ?M = "if ?c = 0 then [] else nodes t d ?c"
  note dist = Suc.prems(2)[unfolded d]
  note bound = Suc.prems(3)[unfolded d]
  note fresh = Suc.prems(4)
  from bound have bx: "x \<le> ts" "x < length t" by simp_all
  from bound have bts: "\<forall>j\<in>set (nodes t (Suc d) x). j \<le> ts" by blast
  have old: "nodes t (Suc d) x = x # (if ?b then (if child t x (\<not> ?b) = 0 then [] else nodes t d (child t x (\<not> ?b))) @ ?M
                                    else ?M @ (if child t x (\<not> ?b) = 0 then [] else nodes t d (child t x (\<not> ?b))))"
    by (rule nodes_Suc_split)
  from dist old have xM: "x \<notin> set ?M" and dM: "distinct ?M" by (auto split: if_splits)
  from old have subM: "set ?M \<subseteq> set (nodes t (Suc d) x)" by (auto split: if_splits)
  show ?case
  proof (cases "?c = 0")
    case False
    have step: "setCount_loop aid n i t (int ts) x 0 = setCount_loop aid n (Suc i) t (int ts) ?c 0"
      using setCount_loop_existing[OF lt, of t x aid "int ts"] False d1 by simp
    have p2: "distinct (nodes t (n - Suc i) ?c)" using dM False d' by simp
    have p3: "\<forall>j\<in>set (nodes t (n - Suc i) ?c). j \<le> ts \<and> j < length t"
      using bound subM False d' by auto
    have p5: "n - Suc i = 0 \<or> (ts + missing_nodes t aid (n - Suc i) ?c < length t
                           \<and> ts + missing_nodes t aid (n - Suc i) ?c < 2 ^ 32)"
      using Suc.prems(5) d False d' by simp
    from Suc.hyps(1)[OF d' le' p2 p3 fresh p5]
    obtain t' ts' leaf where r: "setCount_loop aid n (Suc i) t (int ts) ?c 0 = (t', int ts', leaf)"
      "length t' = length t" "ts' = ts + missing_nodes t aid d ?c" "leaf < length t"
      and g: "\<forall>aid'. getCount_from (t'[leaf := v]) aid' d ?c =
            (if take_bit d aid' = take_bit d aid then v else getCount_from t aid' d ?c)"
      and dn: "distinct (nodes (t'[leaf := v]) d ?c)"
      and sn: "set (nodes (t'[leaf := v]) d ?c) = set (nodes t d ?c) \<union> {ts<..ts'}"
      and fr: "\<forall>j. j \<notin> set (nodes t d ?c) \<and> (j \<le> ts \<or> ts' < j) \<longrightarrow> (t'[leaf := v]) ! j = t ! j"
      unfolding d'[symmetric] by blast
    let ?t'' = "t'[leaf := v]"
    from xM False have xn: "x \<notin> set (nodes t d ?c)" by simp
    with fr bx have tx: "?t'' ! x = t ! x" by blast
    then have ch: "child ?t'' x k = child t x k" for k by (simp add: child_def)
    have L: "distinct (nodes ?t'' (Suc d) x)
     \<and> set (nodes ?t'' (Suc d) x) = set (nodes t (Suc d) x) \<union> {ts<..ts'}
     \<and> (\<forall>aid'. getCount_from ?t'' aid' (Suc d) x =
           (if take_bit (Suc d) aid' = take_bit (Suc d) aid then v
            else getCount_from t aid' (Suc d) x))"
    proof (rule lift_parent[where M = ?M and b = ?b and c' = ?c and ts = ts])
      show "distinct (nodes t (Suc d) x)" by (rule dist)
      show "\<forall>j\<in>set (nodes t (Suc d) x). j \<le> ts" by (rule bts)
      show "?M = ?M" ..
      show "child ?t'' x ?b = ?c" by (rule ch)
      show "?c \<noteq> 0" by (rule False)
      show "child ?t'' x (\<not> ?b) = child t x (\<not> ?b)" by (rule ch)
      show "\<forall>j. j \<le> ts \<and> j \<noteq> x \<and> j \<notin> set ?M \<longrightarrow> ?t'' ! j = t ! j"
        using fr False by simp
      show "distinct (nodes ?t'' d ?c)" by (rule dn)
      show "set (nodes ?t'' d ?c) = set ?M \<union> {ts<..ts'}" using sn False by simp
      show "\<forall>r\<in>{ts<..ts'}. ts < r" by simp
      show "\<forall>aid'. getCount_from ?t'' aid' d ?c =
               (if take_bit d aid' = take_bit d aid then v
                else if ?c = 0 then d_zero else getCount_from t aid' d ?c)"
        using g False by simp
      show "bit aid d = ?b" ..
    qed
    have F: "\<forall>j. j \<notin> set (nodes t (Suc d) x) \<and> (j \<le> ts \<or> ts' < j) \<longrightarrow> ?t'' ! j = t ! j"
    proof (intro allI impI)
      fix j assume j: "j \<notin> set (nodes t (Suc d) x) \<and> (j \<le> ts \<or> ts' < j)"
      with subM False have "j \<notin> set (nodes t d ?c)" by auto
      with fr j show "?t'' ! j = t ! j" by blast
    qed
    have R: "setCount_loop aid n i t (int ts) x 0 = (t', int ts', leaf)"
      unfolding step by (rule r(1))
    have E: "ts' = ts + missing_nodes t aid (Suc d) x" using r(3) False by simp
    show ?thesis
      apply (rule exI[of _ t'], rule exI[of _ ts'], rule exI[of _ leaf])
      unfolding d using R r(2) E r(4) L F by blast
  next
    case True
    from Suc.prems(5) d True have cap: "ts + Suc d < length t" "ts + Suc d < 2 ^ 32" by simp_all
    let ?t1 = "t[x := set_half (t ! x) ?b (word_of_nat (ts + 1))]"
    have c32: "ts + 1 < 2 ^ 32" using cap(2) by simp
    have step: "setCount_loop aid n i t (int ts) x 0 =
         setCount_loop aid n (Suc i) ?t1
           (if i < n - 1 then (int ts + 1) + 1 else int ts + 1) (ts + 1)
           (if i < n - 1 then (int ts + 1) + 1 else int (ts + 1))"
      using setCount_loop_install[OF lt _ bx(2) c32, of aid 0 "int ts" "int ts + 1"] True d1
      by simp
    have t1x: "?t1 ! x = set_half (t ! x) ?b (word_of_nat (ts + 1))" using bx(2) by simp
    have t1o: "j \<noteq> x \<Longrightarrow> ?t1 ! j = t ! j" for j by simp
    have ex: "\<exists>t'. setCount_loop aid n i t (int ts) x 0 = (t', int (ts + 1 + d), ts + 1 + d)
       \<and> length t' = length t
       \<and> (\<forall>j. j < ts + 1 \<or> ts + 1 + d \<le> j \<longrightarrow> t' ! j = ?t1 ! j)
       \<and> (\<forall>m<d. t' ! (ts + 1 + m) = set_half 0 (bit aid (d - 1 - m)) (word_of_nat (ts + 1 + m + 1)))"
    proof (cases "d = 0")
      case d0: True
      with d have last: "\<not> i < n - 1" "\<not> Suc i < n" by simp_all
      have "setCount_loop aid n i t (int ts) x 0 = (?t1, int (ts + 1), ts + 1)"
        unfolding step using last by (simp add: setCount_loop_done)
      with d0 show ?thesis by simp
    next
      case dpos: False
      with d have more: "i < n - 1" "Suc i < n" by simp_all
      have fresh1: "\<forall>j. ts + 1 \<le> j \<and> j < length ?t1 \<longrightarrow> ?t1 ! j = 0"
        using fresh bx(1) by simp
      have cap1: "ts + 1 + (n - Suc i) < length ?t1" "ts + 1 + (n - Suc i) < 2 ^ 32"
        using cap d' by simp_all
      from setCount_loop_chain[OF more(2) fresh1 cap1, of aid]
      obtain t' where t': "setCount_loop aid n (Suc i) ?t1 (int (ts + 1) + 1) (ts + 1) (int (ts + 1) + 1)
               = (t', int (ts + 1 + (n - Suc i)), ts + 1 + (n - Suc i))"
        "length t' = length ?t1"
        "\<forall>j. j < ts + 1 \<or> ts + 1 + (n - Suc i) \<le> j \<longrightarrow> t' ! j = ?t1 ! j"
        "\<forall>m<n - Suc i. t' ! (ts + 1 + m) =
            set_half 0 (bit aid (n - Suc i - 1 - m)) (word_of_nat (ts + 1 + m + 1))"
        by blast
      have "setCount_loop aid n i t (int ts) x 0 = (t', int (ts + 1 + d), ts + 1 + d)"
        unfolding step using more t'(1) d' by (simp add: add.commute add.left_commute)
      with t'(2,3,4) d' show ?thesis by simp
    qed
    then obtain t' where r: "setCount_loop aid n i t (int ts) x 0 = (t', int (ts + 1 + d), ts + 1 + d)"
      and len: "length t' = length t"
      and out: "\<forall>j. j < ts + 1 \<or> ts + 1 + d \<le> j \<longrightarrow> t' ! j = ?t1 ! j"
      and chain: "\<forall>m<d. t' ! (ts + 1 + m) = set_half 0 (bit aid (d - 1 - m)) (word_of_nat (ts + 1 + m + 1))"
      by blast
    let ?leaf = "ts + 1 + d"
    let ?t'' = "t'[?leaf := v]"
    have leafl: "?leaf < length t" using cap(1) by simp
    have tl: "?t'' ! ?leaf = v" using leafl len by simp
    have lo: "j \<le> ts \<Longrightarrow> ?t'' ! j = ?t1 ! j" for j using out by simp
    have hi: "?leaf < j \<Longrightarrow> ?t'' ! j = t ! j" for j using out bx(1) by simp
    have chain'': "\<forall>m<d. ?t'' ! (ts + 1 + m) = set_half 0 (bit aid (d - 1 - m)) (word_of_nat (ts + 1 + m + 1))"
      using chain by simp
    have c32': "ts + 1 + d < 2 ^ 32" using cap(2) by simp
    from chain_nodes_from[OF chain'' c32']
    have cn: "nodes ?t'' d (ts + 1) = [ts + 1..<ts + 1 + d + 1]"
      and cg: "getCount_from ?t'' aid' d (ts + 1) =
         (if take_bit d aid' = take_bit d aid then v else d_zero)" for aid'
      using tl by simp_all
    have tx: "?t'' ! x = set_half (t ! x) ?b (word_of_nat (ts + 1))"
      using lo[OF bx(1)] t1x by simp
    have chb: "child ?t'' x ?b = ts + 1"
      unfolding child_def tx half_set_half_same by (rule unat_child_index(1)[OF c32])
    have cho: "child ?t'' x (\<not> ?b) = child t x (\<not> ?b)"
      unfolding child_def tx half_set_half_other ..
    have L: "distinct (nodes ?t'' (Suc d) x)
     \<and> set (nodes ?t'' (Suc d) x) = set (nodes t (Suc d) x) \<union> {ts<..ts + 1 + d}
     \<and> (\<forall>aid'. getCount_from ?t'' aid' (Suc d) x =
           (if take_bit (Suc d) aid' = take_bit (Suc d) aid then v
            else getCount_from t aid' (Suc d) x))"
    proof (rule lift_parent[where M = ?M and b = ?b and c' = "ts + 1" and ts = ts])
      show "distinct (nodes t (Suc d) x)" by (rule dist)
      show "\<forall>j\<in>set (nodes t (Suc d) x). j \<le> ts" by (rule bts)
      show "?M = ?M" ..
      show "child ?t'' x ?b = ts + 1" by (rule chb)
      show "ts + 1 \<noteq> 0" by simp
      show "child ?t'' x (\<not> ?b) = child t x (\<not> ?b)" by (rule cho)
      show "\<forall>j. j \<le> ts \<and> j \<noteq> x \<and> j \<notin> set ?M \<longrightarrow> ?t'' ! j = t ! j"
        using lo t1o by simp
      show "distinct (nodes ?t'' d (ts + 1))" unfolding cn by simp
      show "set (nodes ?t'' d (ts + 1)) = set ?M \<union> {ts<..ts + 1 + d}"
        unfolding cn using True by auto
      show "\<forall>r\<in>{ts<..ts + 1 + d}. ts < r" by simp
      show "\<forall>aid'. getCount_from ?t'' aid' d (ts + 1) =
               (if take_bit d aid' = take_bit d aid then v
                else if ?c = 0 then d_zero else getCount_from t aid' d ?c)"
        using cg True by simp
      show "bit aid d = ?b" ..
    qed
    have F: "\<forall>j. j \<notin> set (nodes t (Suc d) x) \<and> (j \<le> ts \<or> ts + 1 + d < j) \<longrightarrow> ?t'' ! j = t ! j"
    proof (intro allI impI)
      fix j assume j: "j \<notin> set (nodes t (Suc d) x) \<and> (j \<le> ts \<or> ts + 1 + d < j)"
      then have jx: "j \<noteq> x" using nodes_hd[of x t "Suc d"] by auto
      from j show "?t'' ! j = t ! j"
      proof (elim conjE disjE)
        assume "j \<le> ts"
        with lo t1o jx show ?thesis by simp
      next
        assume "ts + 1 + d < j"
        with hi show ?thesis by simp
      qed
    qed
    have E: "ts + 1 + d = ts + missing_nodes t aid (Suc d) x" using True by simp
    show ?thesis
      apply (rule exI[of _ t'], rule exI[of _ "ts + 1 + d"], rule exI[of _ ?leaf])
      unfolding d using r len E leafl L F by blast
  qed
qed

lemma fresh_iff:
  "list_all (\<lambda>w. w = (0 :: 64 word)) (drop k t) = (\<forall>j. k \<le> j \<and> j < length t \<longrightarrow> t ! j = 0)"
proof
  assume a: "list_all (\<lambda>w. w = 0) (drop k t)"
  show "\<forall>j. k \<le> j \<and> j < length t \<longrightarrow> t ! j = 0"
  proof (intro allI impI)
    fix j assume j: "k \<le> j \<and> j < length t"
    then have "j - k < length (drop k t)" by (simp add: less_diff_conv2)
    with a have "drop k t ! (j - k) = 0" by (simp add: list_all_length)
    with j show "t ! j = 0" by simp
  qed
next
  assume a: "\<forall>j. k \<le> j \<and> j < length t \<longrightarrow> t ! j = 0"
  show "list_all (\<lambda>w. w = 0) (drop k t)"
    unfolding list_all_length
  proof (intro allI impI)
    fix m assume "m < length (drop k t)"
    then have "k \<le> k + m \<and> k + m < length t" by simp
    with a have "t ! (k + m) = 0" by blast
    then show "drop k t ! m = 0" using \<open>m < length (drop k t)\<close> by simp
  qed
qed

lemma getCount_take_bit:
  "take_bit n a = take_bit n b \<Longrightarrow> getCount_from t a n x = getCount_from t b n x"
proof (induction n arbitrary: x)
  case 0
  then show ?case by simp
next
  case (Suc n)
  from Suc.prems have "bit a n = bit b n" "take_bit n a = take_bit n b"
    unfolding take_bit_Suc_eq_iff by simp_all
  with Suc.IH show ?case by simp
qed

lemma missing_nodes_le: "missing_nodes t aid d x \<le> d"
proof (induction d arbitrary: x)
  case 0
  show ?case by simp
next
  case (Suc d)
  from Suc[of "child t x (bit aid d)"] show ?case by simp
qed

lemma setCount_spec:
  assumes wf: "trie_wf n t ts"
    and cap: "n = 0 \<or> (ts + int (missing_nodes t aid n 0) < int (length t)
                      \<and> ts + int (missing_nodes t aid n 0) < 2 ^ 32)"
  shows "\<exists>t' ts'. setCount aid t n ts v = (t', ts') \<and> trie_wf n t' ts' \<and> length t' = length t
     \<and> ts' = ts + (if n = 0 then 1 else int (missing_nodes t aid n 0))
     \<and> (\<forall>aid'. getCount aid' t' n =
           (if take_bit n aid' = take_bit n aid then v else getCount aid' t n))"
proof (cases "n = 0")
  case True
  from wf True have w: "0 \<le> ts" "0 < length t" "list_all (\<lambda>w. w = 0) (drop (nat ts + 1) t)"
    by (simp_all add: trie_wf_def)
  have r: "setCount aid t n ts v = (t[0 := v], ts + 1)"
    using True by (simp add: setCount_def setCount_loop_done)
  from w(3) have "\<forall>j. nat ts + 1 \<le> j \<and> j < length t \<longrightarrow> t ! j = 0" by (simp add: fresh_iff)
  then have "\<forall>j. nat (ts + 1) + 1 \<le> j \<and> j < length (t[0 := v]) \<longrightarrow> (t[0 := v]) ! j = 0"
    using w(1) by (simp add: nat_add_distrib)
  then have f: "list_all (\<lambda>w. w = 0) (drop (nat (ts + 1) + 1) (t[0 := v]))"
    unfolding fresh_iff .
  have wf': "trie_wf n (t[0 := v]) (ts + 1)"
    using True w f by (simp add: trie_wf_def)
  have g: "getCount aid' (t[0 := v]) n =
           (if take_bit n aid' = take_bit n aid then v else getCount aid' t n)" for aid'
    using True w(2) by (simp add: getCount_from_eq)
  from r wf' g True w(1) show ?thesis by simp
next
  case False
  with cap have c: "ts + int (missing_nodes t aid n 0) < int (length t)"
    "ts + int (missing_nodes t aid n 0) < 2 ^ 32" by simp_all
  from wf have w: "0 \<le> ts" "distinct (nodes t n 0)"
    "list_all (\<lambda>x. int x \<le> ts \<and> x < length t) (nodes t n 0)"
    "list_all (\<lambda>w. w = 0) (drop (nat ts + 1) t)"
    by (simp_all add: trie_wf_def)
  let ?ts = "nat ts"
  have its: "int ?ts = ts" using w(1) by simp
  have p3: "\<forall>j\<in>set (nodes t (n - 0) 0). j \<le> ?ts \<and> j < length t"
    using w(3) w(1) by (auto simp: list_all_iff)
  have p4: "\<forall>j. ?ts < j \<and> j < length t \<longrightarrow> t ! j = 0"
    using w(4) by (simp add: fresh_iff)
  have cl: "?ts + missing_nodes t aid n 0 < length t" using c(1) w(1) by linarith
  have p5: "n - 0 = 0 \<or> (?ts + missing_nodes t aid (n - 0) 0 < length t
                       \<and> ?ts + missing_nodes t aid (n - 0) 0 < 2 ^ 32)"
  proof -
    from c(2) w(1) have "int (?ts + missing_nodes t aid n 0) < 2 ^ 32" by simp
    then have "?ts + missing_nodes t aid n 0 < 2 ^ 32"
      by (metis of_nat_less_iff of_nat_numeral of_nat_power)
    with cl show ?thesis by simp
  qed
  have p2: "distinct (nodes t (n - 0) 0)" using w(2) by simp
  from setCount_loop_old[OF le0 p2 p3 p4 p5, of v]
  obtain t' ts' leaf where r: "setCount_loop aid n 0 t (int ?ts) 0 0 = (t', int ts', leaf)"
    "length t' = length t" "ts' = ?ts + missing_nodes t aid n 0" "leaf < length t"
    and g: "\<forall>aid'. getCount_from (t'[leaf := v]) aid' n 0 =
            (if take_bit n aid' = take_bit n aid then v else getCount_from t aid' n 0)"
    and dn: "distinct (nodes (t'[leaf := v]) n 0)"
    and sn: "set (nodes (t'[leaf := v]) n 0) = set (nodes t n 0) \<union> {?ts<..ts'}"
    and fr: "\<forall>j. j \<notin> set (nodes t n 0) \<and> (j \<le> ?ts \<or> ts' < j) \<longrightarrow> (t'[leaf := v]) ! j = t ! j"
    by auto
  let ?t'' = "t'[leaf := v]"
  have res: "setCount aid t n ts v = (?t'', int ts')"
    using False r(1) its by (simp add: setCount_def)
  have b': "list_all (\<lambda>x. int x \<le> int ts' \<and> x < length ?t'') (nodes ?t'' n 0)"
    unfolding list_all_iff
  proof
    fix j assume "j \<in> set (nodes ?t'' n 0)"
    with sn have "j \<in> set (nodes t n 0) \<or> (?ts < j \<and> j \<le> ts')" by auto
    then show "int j \<le> int ts' \<and> j < length ?t''"
    proof
      assume "j \<in> set (nodes t n 0)"
      with p3 r(2,3) show ?thesis by auto
    next
      assume a: "?ts < j \<and> j \<le> ts'"
      then have "int j \<le> int ts'" by simp
      moreover from a cl r(3) have "j < length t" by simp
      ultimately show ?thesis using r(2) by simp
    qed
  qed
  have f': "list_all (\<lambda>w. w = 0) (drop (nat (int ts') + 1) ?t'')"
    unfolding fresh_iff
  proof (intro allI impI)
    fix j assume j: "nat (int ts') + 1 \<le> j \<and> j < length ?t''"
    then have a: "ts' < j" "j < length t" using r(2) by simp_all
    with r(3) p3 have "j \<notin> set (nodes t n 0)" by auto
    with fr a have "?t'' ! j = t ! j" by blast
    moreover from a r(3) p4 have "t ! j = 0" by simp
    ultimately show "?t'' ! j = 0" by simp
  qed
  have wf': "trie_wf n ?t'' (int ts')"
    using dn b' f' by (simp add: trie_wf_def)
  have g': "getCount aid' ?t'' n =
           (if take_bit n aid' = take_bit n aid then v else getCount aid' t n)" for aid'
    using g by (simp add: getCount_from_eq)
  have bounds: "int ts' = ts + int (missing_nodes t aid n 0)"
    using r(3) its by linarith
  from res wf' g' r(2) bounds False show ?thesis by simp
qed

lemma path_node_getCount:
  "i \<le> n \<Longrightarrow>
   (path_node t aid n i = None \<longrightarrow> getCount aid t n = d_zero) \<and>
   (\<forall>x. path_node t aid n i = Some x \<longrightarrow> getCount aid t n = getCount_loop aid t n i x)"
proof (induction i)
  case 0
  then show ?case by (simp add: getCount_def)
next
  case (Suc i)
  then have lt: "i < n" and ih: "path_node t aid n i = None \<longrightarrow> getCount aid t n = d_zero"
    "\<forall>x. path_node t aid n i = Some x \<longrightarrow> getCount aid t n = getCount_loop aid t n i x"
    by simp_all
  show ?case
  proof (cases "path_node t aid n i")
    case None
    with ih(1) show ?thesis by simp
  next
    case (Some x)
    with ih(2) have "getCount aid t n = getCount_loop aid t n i x" by simp
    then have "getCount aid t n =
       (if child t x (bit aid (n - i - 1)) = 0 then d_zero
        else getCount_loop aid t n (Suc i) (child t x (bit aid (n - i - 1))))"
      unfolding getCount_loop_step[OF lt] .
    with Some show ?thesis by simp
  qed
qed

text \<open>
  C3. On a well-formed trie with room for \<open>numVars\<close> more nodes (and child indices that
  fit in 32 bits), \<^verbatim>\<open>getCount\<close> after \<^verbatim>\<open>setCount\<close> of the same id returns the value set;
  and \<^verbatim>\<open>getCount\<close> returns 0.0 for an id whose walk meets a child index 0. The calls run
  alone (no other worker between them).
\<close>

theorem setCount_getCount:
  assumes "trie_wf numVars t treeSize"
    and "numVars = 0 \<or>
         (treeSize + int numVars < int (length t) \<and> treeSize + int numVars < 2 ^ 32)"
  shows "getCount aid (fst (setCount aid t numVars treeSize v)) numVars = v
     \<and> (\<forall>i\<le>numVars. path_node t aid' numVars i = None \<longrightarrow>
           getCount aid' t numVars = d_zero)"
proof -
  have "int (missing_nodes t aid numVars 0) \<le> int numVars"
    using missing_nodes_le[of t aid numVars 0] by simp
  with assms(2) have cap: "numVars = 0 \<or>
         (treeSize + int (missing_nodes t aid numVars 0) < int (length t)
          \<and> treeSize + int (missing_nodes t aid numVars 0) < 2 ^ 32)"
    by linarith
  from setCount_spec[OF assms(1) cap, of v]
  have "getCount aid (fst (setCount aid t numVars treeSize v)) numVars = v" by auto
  moreover have "\<forall>i\<le>numVars. path_node t aid' numVars i = None \<longrightarrow>
           getCount aid' t numVars = d_zero"
    using path_node_getCount by blast
  ultimately show ?thesis by blast
qed

theorem setCount_getCount_witness:
  "trie_wf 2 [0, 0, 0, 0, 0, 0] 0
   \<and> (0::int) + int 2 < int (length [0 :: 64 word, 0, 0, 0, 0, 0]) \<and> (0::int) + int 2 < 2 ^ 32
   \<and> setCount 2 [0, 0, 0, 0, 0, 0] 2 0 d_one = ([0x100000000, 0x2, d_one, 0, 0, 0], 2)
   \<and> getCount 2 (fst (setCount 2 [0, 0, 0, 0, 0, 0] 2 0 d_one)) 2 = d_one
   \<and> path_node [0x100000000, 0x2, d_one, 0, 0, 0] 3 2 2 = None
   \<and> getCount 3 [0x100000000, 0x2, d_one, 0, 0, 0] 2 = d_zero"
proof -
  have h1: "trie_wf 2 [0, 0, 0, 0, 0, 0] 0" by code_simp
  have h2: "(2::nat) = 0 \<or> ((0::int) + int 2 < int (length [0 :: 64 word, 0, 0, 0, 0, 0])
              \<and> (0::int) + int 2 < 2 ^ 32)"
    by simp
  have e: "setCount 2 [0, 0, 0, 0, 0, 0] 2 0 d_one = ([0x100000000, 0x2, d_one, 0, 0, 0], 2)"
    by code_simp
  have p: "path_node [0x100000000, 0x2, d_one, 0, 0, 0] 3 2 2 = None" by code_simp
  have h3: "trie_wf 2 [0x100000000, 0x2, d_one, 0, 0, 0] 2" by code_simp
  have h4: "(2::nat) = 0 \<or> ((2::int) + int 2 < int (length [0x100000000 :: 64 word, 0x2, d_one, 0, 0, 0])
              \<and> (2::int) + int 2 < 2 ^ 32)"
    by simp
  from setCount_getCount[OF h1 h2, of 2 d_one]
  have a: "getCount 2 (fst (setCount 2 [0, 0, 0, 0, 0, 0] 2 0 d_one)) 2 = d_one" by blast
  from setCount_getCount[OF h3 h4, of 2 d_one 3] p
  have b: "getCount 3 [0x100000000, 0x2, d_one, 0, 0, 0] 2 = d_zero" by auto
  from h1 e a p b show ?thesis by simp
qed

lemma getCount_take_bit_eq:
  "take_bit n a = take_bit n b \<Longrightarrow> getCount a t n = getCount b t n"
  unfolding getCount_from_eq by (rule getCount_take_bit)

lemma combineTree_step:
  assumes wf: "trie_wf n t ts"
    and cap: "d_gt0 (getCount (gid + id_offset + startId) t2 n) \<longrightarrow>
              n = 0 \<or>
              (ts + int (missing_nodes t (gid + id_offset + startId) n 0) < int (length t)
               \<and> ts + int (missing_nodes t (gid + id_offset + startId) n 0) < 2 ^ 32)"
  shows "\<exists>t' ts'. combineTree n t t2 ts startId id_offset gid = (t', ts')
     \<and> trie_wf n t' ts' \<and> length t' = length t \<and> ts \<le> ts'
     \<and> (\<forall>aid'. getCount aid' t' n =
           (if take_bit n aid' = take_bit n (gid + id_offset + startId)
               \<and> d_gt0 (getCount aid' t2 n)
            then getCount aid' t2 n else getCount aid' t n))"
proof (cases "d_gt0 (getCount (gid + id_offset + startId) t2 n)")
  case False
  then have r: "combineTree n t t2 ts startId id_offset gid = (t, ts)"
    by (simp add: combineTree_def Let_def)
  have "getCount aid' t n =
           (if take_bit n aid' = take_bit n (gid + id_offset + startId)
               \<and> d_gt0 (getCount aid' t2 n)
            then getCount aid' t2 n else getCount aid' t n)" for aid'
    using False getCount_take_bit_eq[of n aid' "gid + id_offset + startId" t2] by auto
  with r wf show ?thesis by auto
next
  case True
  let ?a = "gid + id_offset + startId"
  let ?v = "getCount ?a t2 n"
  from True have r: "combineTree n t t2 ts startId id_offset gid = setCount ?a t n ts ?v"
    by (simp add: combineTree_def Let_def)
  from cap True have cap': "n = 0 \<or>
              (ts + int (missing_nodes t ?a n 0) < int (length t)
               \<and> ts + int (missing_nodes t ?a n 0) < 2 ^ 32)" by blast
  from setCount_spec[OF wf cap', of ?v]
  obtain t' ts' where s: "setCount ?a t n ts ?v = (t', ts')" "trie_wf n t' ts'"
    "length t' = length t" "ts' = ts + (if n = 0 then 1 else int (missing_nodes t ?a n 0))"
    and g: "\<forall>aid'. getCount aid' t' n = (if take_bit n aid' = take_bit n ?a then ?v else getCount aid' t n)"
    by blast
  from s(4) have le: "ts \<le> ts'" by simp
  have "getCount aid' t' n =
           (if take_bit n aid' = take_bit n ?a \<and> d_gt0 (getCount aid' t2 n)
            then getCount aid' t2 n else getCount aid' t n)" for aid'
  proof (cases "take_bit n aid' = take_bit n ?a")
    case eq: True
    then have "getCount aid' t2 n = ?v" by (rule getCount_take_bit_eq)
    with eq g True show ?thesis by simp
  next
    case False
    with g show ?thesis by simp
  qed
  with r s(1,2,3) le show ?thesis by auto
qed

lemma combineTree_launch_Suc:
  "combineTree_launch n t t2 ts startId id_offset (Suc m) =
     (case combineTree_launch n t t2 ts startId id_offset m of
        (t', ts') \<Rightarrow> combineTree n t' t2 ts' startId id_offset (int m))"
  by (simp add: combineTree_launch_def split: prod.splits)

lemma combineTree_room_D:
  assumes "combineTree_room n t t2 ts startId id_offset threads" "g < threads"
    and "combineTree_launch n t t2 ts startId id_offset g = (t', ts')"
    and "d_gt0 (getCount (int g + id_offset + startId) t2 n)"
  shows "n = 0 \<or>
         (ts' + int (missing_nodes t' (int g + id_offset + startId) n 0) < int (length t')
          \<and> ts' + int (missing_nodes t' (int g + id_offset + startId) n 0) < 2 ^ 32)"
proof -
  from assms(1,2) have "case combineTree_launch n t t2 ts startId id_offset g of
              (u, us) \<Rightarrow>
                d_gt0 (getCount (int g + id_offset + startId) t2 n) \<longrightarrow>
                n = 0 \<or>
                (us + int (missing_nodes u (int g + id_offset + startId) n 0) < int (length u)
                 \<and> us + int (missing_nodes u (int g + id_offset + startId) n 0) < 2 ^ 32)"
    unfolding combineTree_room_def list_all_iff by simp
  with assms(3,4) show ?thesis by simp
qed

lemma combineTree_launch_inv:
  assumes wf: "trie_wf n t ts"
    and room: "combineTree_room n t t2 ts startId id_offset threads"
    and m: "m \<le> threads"
  shows "\<exists>t' ts'. combineTree_launch n t t2 ts startId id_offset m = (t', ts')
     \<and> trie_wf n t' ts' \<and> length t' = length t \<and> ts \<le> ts'
     \<and> (\<forall>aid'. getCount aid' t' n =
           (if (\<exists>g<m. take_bit n aid' = take_bit n (int g + id_offset + startId))
               \<and> d_gt0 (getCount aid' t2 n)
            then getCount aid' t2 n else getCount aid' t n))"
  using m
proof (induction m)
  case 0
  have "combineTree_launch n t t2 ts startId id_offset 0 = (t, ts)"
    by (simp add: combineTree_launch_def)
  with wf show ?case by simp
next
  case (Suc m)
  then have mt: "m < threads" by simp
  from Suc obtain t' ts' where ih: "combineTree_launch n t t2 ts startId id_offset m = (t', ts')"
    "trie_wf n t' ts'" "length t' = length t" "ts \<le> ts'"
    and g: "\<forall>aid'. getCount aid' t' n =
           (if (\<exists>g<m. take_bit n aid' = take_bit n (int g + id_offset + startId))
               \<and> d_gt0 (getCount aid' t2 n)
            then getCount aid' t2 n else getCount aid' t n)"
    by auto
  have cap': "d_gt0 (getCount (int m + id_offset + startId) t2 n) \<longrightarrow>
              n = 0 \<or>
              (ts' + int (missing_nodes t' (int m + id_offset + startId) n 0) < int (length t')
               \<and> ts' + int (missing_nodes t' (int m + id_offset + startId) n 0) < 2 ^ 32)"
    using combineTree_room_D[OF room mt ih(1)] by blast
  from combineTree_step[OF ih(2) cap']
  obtain u us where s: "combineTree n t' t2 ts' startId id_offset (int m) = (u, us)"
    "trie_wf n u us" "length u = length t'" "ts' \<le> us"
    and gu: "\<forall>aid'. getCount aid' u n =
           (if take_bit n aid' = take_bit n (int m + id_offset + startId)
               \<and> d_gt0 (getCount aid' t2 n)
            then getCount aid' t2 n else getCount aid' t' n)"
    by blast
  have r: "combineTree_launch n t t2 ts startId id_offset (Suc m) = (u, us)"
    unfolding combineTree_launch_Suc ih(1) using s(1) by simp
  from ih(4) s(4) have bnd: "ts \<le> us" by simp
  have G: "getCount aid' u n =
           (if (\<exists>g<Suc m. take_bit n aid' = take_bit n (int g + id_offset + startId))
               \<and> d_gt0 (getCount aid' t2 n)
            then getCount aid' t2 n else getCount aid' t n)" for aid'
  proof -
    have e: "(\<exists>g<Suc m. take_bit n aid' = take_bit n (int g + id_offset + startId)) =
             (take_bit n aid' = take_bit n (int m + id_offset + startId) \<or>
              (\<exists>g<m. take_bit n aid' = take_bit n (int g + id_offset + startId)))"
      by (auto simp: less_Suc_eq)
    show ?thesis unfolding e using gu g by auto
  qed
  from r s(2,3) ih(3) bnd G show ?case by simp
qed

lemma combineTree_launch_zero:
  assumes "\<forall>g<m. \<not> d_gt0 (getCount (int g + id_offset + startId) t2 n)"
  shows "combineTree_launch n t t2 ts startId id_offset m = (t, ts)"
  using assms
proof (induction m)
  case 0
  show ?case by (simp add: combineTree_launch_def)
next
  case (Suc m)
  then have ih: "combineTree_launch n t t2 ts startId id_offset m = (t, ts)"
    and z: "\<not> d_gt0 (getCount (int m + id_offset + startId) t2 n)" by simp_all
  show ?case unfolding combineTree_launch_Suc ih using z by (simp add: combineTree_def Let_def)
qed

lemma chunk_cover:
  fixes lo :: int
  assumes "0 \<le> lo" "lo + int threads \<le> 2 ^ n" "0 \<le> aid" "aid < 2 ^ n"
  shows "(\<exists>g<threads. take_bit n aid = take_bit n (int g + lo)) =
         (lo \<le> aid \<and> aid < lo + int threads)"
proof
  assume "\<exists>g<threads. take_bit n aid = take_bit n (int g + lo)"
  then obtain g where g: "g < threads" "take_bit n aid = take_bit n (int g + lo)" by blast
  from g(1) have gi: "int g < int threads" by simp
  from assms(1) have r1: "0 \<le> int g + lo" by simp
  from gi assms(2) have r2: "int g + lo < 2 ^ n" by linarith
  have e1: "take_bit n aid = aid" by (rule take_bit_int_eq_self[OF assms(3,4)])
  have e2: "take_bit n (int g + lo) = int g + lo" by (rule take_bit_int_eq_self[OF r1 r2])
  from g(2) have "aid = int g + lo" unfolding e1 e2 .
  with gi show "lo \<le> aid \<and> aid < lo + int threads" by simp
next
  assume a: "lo \<le> aid \<and> aid < lo + int threads"
  then have l: "nat (aid - lo) < threads" by linarith
  from a have "int (nat (aid - lo)) + lo = aid" by simp
  then have "take_bit n aid = take_bit n (int (nat (aid - lo)) + lo)" by simp
  with l show "\<exists>g<threads. take_bit n aid = take_bit n (int g + lo)" by blast
qed

text \<open>
  C6. The workers of a launch of \<^verbatim>\<open>combineTree\<close> run one after the other, over the chunk
  \<open>id_offset + startId, \<dots>, id_offset + startId + threads - 1\<close> of the ids of \<open>numVars\<close>
  bits. The destination is a well-formed trie and the launch has room. For the ids of the
  chunk, every count of the two tries is 0.0 or positive, no id has a positive count in
  both, and adding 0.0 to a count gives the count. Then every id of the chunk has, in the
  resulting trie, the sum of its counts in the two tries, and every other id the count it
  had in the destination; and a source with no positive count in the chunk leaves the
  destination and its node counter as they are. The chunk of all the ids is
  \<open>id_offset + startId = 0\<close> with \<open>threads = 2 ^ numVars\<close>.
\<close>

theorem combineTree_launch_sum:
  assumes "trie_wf numVars t1 treeSize"
    and "combineTree_room numVars t1 t2 treeSize startId id_offset threads"
    and "0 \<le> id_offset + startId"
    and "id_offset + startId + int threads \<le> 2 ^ numVars"
    and "\<forall>aid. id_offset + startId \<le> aid \<and> aid < id_offset + startId + int threads \<longrightarrow>
           (getCount aid t1 numVars = d_zero \<or> d_gt0 (getCount aid t1 numVars))
         \<and> (getCount aid t2 numVars = d_zero \<or> d_gt0 (getCount aid t2 numVars))
         \<and> \<not> (d_gt0 (getCount aid t1 numVars) \<and> d_gt0 (getCount aid t2 numVars))
         \<and> fp_add U (getCount aid t1 numVars) d_zero = getCount aid t1 numVars
         \<and> fp_add U d_zero (getCount aid t2 numVars) = getCount aid t2 numVars"
  shows "(\<forall>aid. 0 \<le> aid \<and> aid < 2 ^ numVars \<longrightarrow>
            getCount aid
              (fst (combineTree_launch numVars t1 t2 treeSize startId id_offset threads))
              numVars
            = (if id_offset + startId \<le> aid \<and> aid < id_offset + startId + int threads
               then fp_add U (getCount aid t1 numVars) (getCount aid t2 numVars)
               else getCount aid t1 numVars))
     \<and> ((\<forall>aid. id_offset + startId \<le> aid \<and> aid < id_offset + startId + int threads \<longrightarrow>
              \<not> d_gt0 (getCount aid t2 numVars)) \<longrightarrow>
          combineTree_launch numVars t1 t2 treeSize startId id_offset threads
          = (t1, treeSize))"
proof (intro conjI allI impI)
  fix aid :: int
  assume r: "0 \<le> aid \<and> aid < 2 ^ numVars"
  let ?lo = "id_offset + startId"
  from combineTree_launch_inv[OF assms(1,2) order_refl]
  obtain t' ts' where l: "combineTree_launch numVars t1 t2 treeSize startId id_offset threads
      = (t', ts')"
    and g: "\<forall>aid'. getCount aid' t' numVars =
           (if (\<exists>g<threads. take_bit numVars aid' = take_bit numVars (int g + id_offset + startId))
               \<and> d_gt0 (getCount aid' t2 numVars)
            then getCount aid' t2 numVars else getCount aid' t1 numVars)"
    by blast
  have e: "int g + id_offset + startId = int g + ?lo" for g by simp
  have cov: "(\<exists>g<threads. take_bit numVars aid = take_bit numVars (int g + id_offset + startId))
           = (?lo \<le> aid \<and> aid < ?lo + int threads)"
    unfolding e using r by (intro chunk_cover[OF assms(3,4)]) simp_all
  from g cov have v: "getCount aid t' numVars =
      (if (?lo \<le> aid \<and> aid < ?lo + int threads) \<and> d_gt0 (getCount aid t2 numVars)
       then getCount aid t2 numVars else getCount aid t1 numVars)" by simp
  have "getCount aid t' numVars =
        (if ?lo \<le> aid \<and> aid < ?lo + int threads
         then fp_add U (getCount aid t1 numVars) (getCount aid t2 numVars)
         else getCount aid t1 numVars)"
  proof (cases "?lo \<le> aid \<and> aid < ?lo + int threads")
    case False
    then have n: "\<not> ((?lo \<le> aid \<and> aid < ?lo + int threads) \<and> d_gt0 (getCount aid t2 numVars))"
      by blast
    have "getCount aid t' numVars = getCount aid t1 numVars"
      unfolding v by (rule if_not_P[OF n])
    with False show ?thesis by (simp only: if_False)
  next
    case True
    with assms(5) have h:
      "getCount aid t1 numVars = d_zero \<or> d_gt0 (getCount aid t1 numVars)"
      "getCount aid t2 numVars = d_zero \<or> d_gt0 (getCount aid t2 numVars)"
      "\<not> (d_gt0 (getCount aid t1 numVars) \<and> d_gt0 (getCount aid t2 numVars))"
      "fp_add U (getCount aid t1 numVars) d_zero = getCount aid t1 numVars"
      "fp_add U d_zero (getCount aid t2 numVars) = getCount aid t2 numVars"
      by blast+
    show ?thesis
    proof (cases "d_gt0 (getCount aid t2 numVars)")
      case p: True
      with h(1,3) have "getCount aid t1 numVars = d_zero" by blast
      with v True p h(5) show ?thesis by simp
    next
      case p: False
      with h(2) have "getCount aid t2 numVars = d_zero" by blast
      with v True p h(4) show ?thesis by simp
    qed
  qed
  with l show "getCount aid
              (fst (combineTree_launch numVars t1 t2 treeSize startId id_offset threads))
              numVars
            = (if id_offset + startId \<le> aid \<and> aid < id_offset + startId + int threads
               then fp_add U (getCount aid t1 numVars) (getCount aid t2 numVars)
               else getCount aid t1 numVars)" by simp
next
  assume z: "\<forall>aid. id_offset + startId \<le> aid \<and> aid < id_offset + startId + int threads \<longrightarrow>
              \<not> d_gt0 (getCount aid t2 numVars)"
  show "combineTree_launch numVars t1 t2 treeSize startId id_offset threads = (t1, treeSize)"
  proof (rule combineTree_launch_zero, intro allI impI)
    fix g :: nat assume "g < threads"
    then have "id_offset + startId \<le> int g + id_offset + startId
               \<and> int g + id_offset + startId < id_offset + startId + int threads" by simp
    with z show "\<not> d_gt0 (getCount (int g + id_offset + startId) t2 numVars)" by blast
  qed
qed

theorem combineTree_launch_sum_witness:
  "trie_wf 2 [0x1, 0x2, d_one, 0, 0] 2
   \<and> combineTree_room 2 [0x1, 0x2, d_one, 0, 0] [0x300000001, 0x200000000, 0x4010000000000000, 0x400000000, d_two] 2 2 0 2
   \<and> combineTree_launch 2 [0x1, 0x2, d_one, 0, 0] [0x300000001, 0x200000000, 0x4010000000000000, 0x400000000, d_two] 2 2 0 2 = ([0x300000001, 0x2, d_one, 0x400000000, d_two], 4)
   \<and> getCount 0 (fst (combineTree_launch 2 [0x1, 0x2, d_one, 0, 0] [0x300000001, 0x200000000, 0x4010000000000000, 0x400000000, d_two] 2 2 0 2)) 2
       = (if (0::int) + 2 \<le> 0 \<and> 0 < 0 + 2 + int 2
          then fp_add ieee (getCount 0 [0x1, 0x2, d_one, 0, 0] 2) (getCount 0 [0x300000001, 0x200000000, 0x4010000000000000, 0x400000000, d_two] 2)
          else getCount 0 [0x1, 0x2, d_one, 0, 0] 2)
   \<and> getCount 1 (fst (combineTree_launch 2 [0x1, 0x2, d_one, 0, 0] [0x300000001, 0x200000000, 0x4010000000000000, 0x400000000, d_two] 2 2 0 2)) 2
       = (if (0::int) + 2 \<le> 1 \<and> 1 < 0 + 2 + int 2
          then fp_add ieee (getCount 1 [0x1, 0x2, d_one, 0, 0] 2) (getCount 1 [0x300000001, 0x200000000, 0x4010000000000000, 0x400000000, d_two] 2)
          else getCount 1 [0x1, 0x2, d_one, 0, 0] 2)
   \<and> getCount 2 (fst (combineTree_launch 2 [0x1, 0x2, d_one, 0, 0] [0x300000001, 0x200000000, 0x4010000000000000, 0x400000000, d_two] 2 2 0 2)) 2
       = (if (0::int) + 2 \<le> 2 \<and> 2 < 0 + 2 + int 2
          then fp_add ieee (getCount 2 [0x1, 0x2, d_one, 0, 0] 2) (getCount 2 [0x300000001, 0x200000000, 0x4010000000000000, 0x400000000, d_two] 2)
          else getCount 2 [0x1, 0x2, d_one, 0, 0] 2)
   \<and> getCount 3 (fst (combineTree_launch 2 [0x1, 0x2, d_one, 0, 0] [0x300000001, 0x200000000, 0x4010000000000000, 0x400000000, d_two] 2 2 0 2)) 2
       = (if (0::int) + 2 \<le> 3 \<and> 3 < 0 + 2 + int 2
          then fp_add ieee (getCount 3 [0x1, 0x2, d_one, 0, 0] 2) (getCount 3 [0x300000001, 0x200000000, 0x4010000000000000, 0x400000000, d_two] 2)
          else getCount 3 [0x1, 0x2, d_one, 0, 0] 2)
   \<and> map (\<lambda>aid. getCount aid [0x1, 0x2, d_one, 0, 0] 2) [0, 1, 2, 3] = [d_one, d_zero, d_zero, d_zero]
   \<and> map (\<lambda>aid. getCount aid [0x300000001, 0x200000000, 0x4010000000000000, 0x400000000, d_two] 2) [0, 1, 2, 3]
       = [d_zero, 0x4010000000000000, d_zero, d_two]
   \<and> map (\<lambda>aid. getCount aid [0x300000001, 0x2, d_one, 0x400000000, d_two] 2) [0, 1, 2, 3] = [d_one, d_zero, d_zero, d_two]
   \<and> combineTree_launch 2 [0x1, 0x2, d_one, 0, 0] [0, 0, 0, 0, 0] 2 2 0 2 = ([0x1, 0x2, d_one, 0, 0], 2)"
proof -
  have rng: "aid = 2 \<or> aid = 3" if "(0::int) + 2 \<le> aid \<and> aid < 0 + 2 + int 2" for aid :: int
    using that by auto
  have h1: "trie_wf 2 [0x1, 0x2, d_one, 0, 0] 2" by code_simp
  have h2: "combineTree_room 2 [0x1, 0x2, d_one, 0, 0] [0x300000001, 0x200000000, 0x4010000000000000, 0x400000000, d_two] 2 2 0 2" by code_simp
  have h2z: "combineTree_room 2 [0x1, 0x2, d_one, 0, 0] [0, 0, 0, 0, 0] 2 2 0 2" by code_simp
  have h3: "(0::int) \<le> 0 + 2" by simp
  have h4: "(0::int) + 2 + int 2 \<le> 2 ^ 2" by simp
  have a2: "(getCount 2 [0x1, 0x2, d_one, 0, 0] 2 = d_zero \<or> d_gt0 (getCount 2 [0x1, 0x2, d_one, 0, 0] 2))
         \<and> (getCount 2 [0x300000001, 0x200000000, 0x4010000000000000, 0x400000000, d_two] 2 = d_zero \<or> d_gt0 (getCount 2 [0x300000001, 0x200000000, 0x4010000000000000, 0x400000000, d_two] 2))
         \<and> \<not> (d_gt0 (getCount 2 [0x1, 0x2, d_one, 0, 0] 2) \<and> d_gt0 (getCount 2 [0x300000001, 0x200000000, 0x4010000000000000, 0x400000000, d_two] 2))
         \<and> fp_add ieee (getCount 2 [0x1, 0x2, d_one, 0, 0] 2) d_zero = getCount 2 [0x1, 0x2, d_one, 0, 0] 2
         \<and> fp_add ieee d_zero (getCount 2 [0x300000001, 0x200000000, 0x4010000000000000, 0x400000000, d_two] 2) = getCount 2 [0x300000001, 0x200000000, 0x4010000000000000, 0x400000000, d_two] 2"
    by code_simp
  have a3: "(getCount 3 [0x1, 0x2, d_one, 0, 0] 2 = d_zero \<or> d_gt0 (getCount 3 [0x1, 0x2, d_one, 0, 0] 2))
         \<and> (getCount 3 [0x300000001, 0x200000000, 0x4010000000000000, 0x400000000, d_two] 2 = d_zero \<or> d_gt0 (getCount 3 [0x300000001, 0x200000000, 0x4010000000000000, 0x400000000, d_two] 2))
         \<and> \<not> (d_gt0 (getCount 3 [0x1, 0x2, d_one, 0, 0] 2) \<and> d_gt0 (getCount 3 [0x300000001, 0x200000000, 0x4010000000000000, 0x400000000, d_two] 2))
         \<and> fp_add ieee (getCount 3 [0x1, 0x2, d_one, 0, 0] 2) d_zero = getCount 3 [0x1, 0x2, d_one, 0, 0] 2
         \<and> fp_add ieee d_zero (getCount 3 [0x300000001, 0x200000000, 0x4010000000000000, 0x400000000, d_two] 2) = getCount 3 [0x300000001, 0x200000000, 0x4010000000000000, 0x400000000, d_two] 2"
    by code_simp
  have h5: "\<forall>aid. (0::int) + 2 \<le> aid \<and> aid < 0 + 2 + int 2 \<longrightarrow>
           (getCount aid [0x1, 0x2, d_one, 0, 0] 2 = d_zero \<or> d_gt0 (getCount aid [0x1, 0x2, d_one, 0, 0] 2))
         \<and> (getCount aid [0x300000001, 0x200000000, 0x4010000000000000, 0x400000000, d_two] 2 = d_zero \<or> d_gt0 (getCount aid [0x300000001, 0x200000000, 0x4010000000000000, 0x400000000, d_two] 2))
         \<and> \<not> (d_gt0 (getCount aid [0x1, 0x2, d_one, 0, 0] 2) \<and> d_gt0 (getCount aid [0x300000001, 0x200000000, 0x4010000000000000, 0x400000000, d_two] 2))
         \<and> fp_add ieee (getCount aid [0x1, 0x2, d_one, 0, 0] 2) d_zero = getCount aid [0x1, 0x2, d_one, 0, 0] 2
         \<and> fp_add ieee d_zero (getCount aid [0x300000001, 0x200000000, 0x4010000000000000, 0x400000000, d_two] 2) = getCount aid [0x300000001, 0x200000000, 0x4010000000000000, 0x400000000, d_two] 2"
  proof (intro allI impI)
    fix aid :: int assume "(0::int) + 2 \<le> aid \<and> aid < 0 + 2 + int 2"
    then have "aid = 2 \<or> aid = 3" by (rule rng)
    then show "(getCount aid [0x1, 0x2, d_one, 0, 0] 2 = d_zero \<or> d_gt0 (getCount aid [0x1, 0x2, d_one, 0, 0] 2))
         \<and> (getCount aid [0x300000001, 0x200000000, 0x4010000000000000, 0x400000000, d_two] 2 = d_zero \<or> d_gt0 (getCount aid [0x300000001, 0x200000000, 0x4010000000000000, 0x400000000, d_two] 2))
         \<and> \<not> (d_gt0 (getCount aid [0x1, 0x2, d_one, 0, 0] 2) \<and> d_gt0 (getCount aid [0x300000001, 0x200000000, 0x4010000000000000, 0x400000000, d_two] 2))
         \<and> fp_add ieee (getCount aid [0x1, 0x2, d_one, 0, 0] 2) d_zero = getCount aid [0x1, 0x2, d_one, 0, 0] 2
         \<and> fp_add ieee d_zero (getCount aid [0x300000001, 0x200000000, 0x4010000000000000, 0x400000000, d_two] 2) = getCount aid [0x300000001, 0x200000000, 0x4010000000000000, 0x400000000, d_two] 2"
      using a2 a3 by (elim disjE) (simp_all only: simp_thms)
  qed
  have z2: "(getCount 2 [0x1, 0x2, d_one, 0, 0] 2 = d_zero \<or> d_gt0 (getCount 2 [0x1, 0x2, d_one, 0, 0] 2))
         \<and> (getCount 2 [0, 0, 0, 0, 0] 2 = d_zero \<or> d_gt0 (getCount 2 [0, 0, 0, 0, 0] 2))
         \<and> \<not> (d_gt0 (getCount 2 [0x1, 0x2, d_one, 0, 0] 2) \<and> d_gt0 (getCount 2 [0, 0, 0, 0, 0] 2))
         \<and> fp_add ieee (getCount 2 [0x1, 0x2, d_one, 0, 0] 2) d_zero = getCount 2 [0x1, 0x2, d_one, 0, 0] 2
         \<and> fp_add ieee d_zero (getCount 2 [0, 0, 0, 0, 0] 2) = getCount 2 [0, 0, 0, 0, 0] 2"
    by code_simp
  have z3: "(getCount 3 [0x1, 0x2, d_one, 0, 0] 2 = d_zero \<or> d_gt0 (getCount 3 [0x1, 0x2, d_one, 0, 0] 2))
         \<and> (getCount 3 [0, 0, 0, 0, 0] 2 = d_zero \<or> d_gt0 (getCount 3 [0, 0, 0, 0, 0] 2))
         \<and> \<not> (d_gt0 (getCount 3 [0x1, 0x2, d_one, 0, 0] 2) \<and> d_gt0 (getCount 3 [0, 0, 0, 0, 0] 2))
         \<and> fp_add ieee (getCount 3 [0x1, 0x2, d_one, 0, 0] 2) d_zero = getCount 3 [0x1, 0x2, d_one, 0, 0] 2
         \<and> fp_add ieee d_zero (getCount 3 [0, 0, 0, 0, 0] 2) = getCount 3 [0, 0, 0, 0, 0] 2"
    by code_simp
  have h5z: "\<forall>aid. (0::int) + 2 \<le> aid \<and> aid < 0 + 2 + int 2 \<longrightarrow>
           (getCount aid [0x1, 0x2, d_one, 0, 0] 2 = d_zero \<or> d_gt0 (getCount aid [0x1, 0x2, d_one, 0, 0] 2))
         \<and> (getCount aid [0, 0, 0, 0, 0] 2 = d_zero \<or> d_gt0 (getCount aid [0, 0, 0, 0, 0] 2))
         \<and> \<not> (d_gt0 (getCount aid [0x1, 0x2, d_one, 0, 0] 2) \<and> d_gt0 (getCount aid [0, 0, 0, 0, 0] 2))
         \<and> fp_add ieee (getCount aid [0x1, 0x2, d_one, 0, 0] 2) d_zero = getCount aid [0x1, 0x2, d_one, 0, 0] 2
         \<and> fp_add ieee d_zero (getCount aid [0, 0, 0, 0, 0] 2) = getCount aid [0, 0, 0, 0, 0] 2"
  proof (intro allI impI)
    fix aid :: int assume "(0::int) + 2 \<le> aid \<and> aid < 0 + 2 + int 2"
    then have "aid = 2 \<or> aid = 3" by (rule rng)
    then show "(getCount aid [0x1, 0x2, d_one, 0, 0] 2 = d_zero \<or> d_gt0 (getCount aid [0x1, 0x2, d_one, 0, 0] 2))
         \<and> (getCount aid [0, 0, 0, 0, 0] 2 = d_zero \<or> d_gt0 (getCount aid [0, 0, 0, 0, 0] 2))
         \<and> \<not> (d_gt0 (getCount aid [0x1, 0x2, d_one, 0, 0] 2) \<and> d_gt0 (getCount aid [0, 0, 0, 0, 0] 2))
         \<and> fp_add ieee (getCount aid [0x1, 0x2, d_one, 0, 0] 2) d_zero = getCount aid [0x1, 0x2, d_one, 0, 0] 2
         \<and> fp_add ieee d_zero (getCount aid [0, 0, 0, 0, 0] 2) = getCount aid [0, 0, 0, 0, 0] 2"
      using z2 z3 by (elim disjE) (simp_all only: simp_thms)
  qed
  have n2: "\<not> d_gt0 (getCount 2 [0, 0, 0, 0, 0] 2)" by code_simp
  have n3: "\<not> d_gt0 (getCount 3 [0, 0, 0, 0, 0] 2)" by code_simp
  have h6: "\<forall>aid. (0::int) + 2 \<le> aid \<and> aid < 0 + 2 + int 2 \<longrightarrow>
              \<not> d_gt0 (getCount aid [0, 0, 0, 0, 0] 2)"
  proof (intro allI impI)
    fix aid :: int assume "(0::int) + 2 \<le> aid \<and> aid < 0 + 2 + int 2"
    then have "aid = 2 \<or> aid = 3" by (rule rng)
    then show "\<not> d_gt0 (getCount aid [0, 0, 0, 0, 0] 2)"
      using n2 n3 by (elim disjE) (simp_all only: simp_thms)
  qed
  have e: "combineTree_launch 2 [0x1, 0x2, d_one, 0, 0] [0x300000001, 0x200000000, 0x4010000000000000, 0x400000000, d_two] 2 2 0 2 = ([0x300000001, 0x2, d_one, 0x400000000, d_two], 4)"
    by code_simp
  note s = combineTree_launch_sum[OF h1 h2 h3 h4 h5, THEN conjunct1, rule_format]
  have r0: "(0::int) \<le> 0 \<and> (0::int) < 2 ^ 2" by simp
  have r1: "(0::int) \<le> 1 \<and> (1::int) < 2 ^ 2" by simp
  have r2: "(0::int) \<le> 2 \<and> (2::int) < 2 ^ 2" by simp
  have r3: "(0::int) \<le> 3 \<and> (3::int) < 2 ^ 2" by simp
  have s0: "getCount 0 (fst (combineTree_launch 2 [0x1, 0x2, d_one, 0, 0] [0x300000001, 0x200000000, 0x4010000000000000, 0x400000000, d_two] 2 2 0 2)) 2
       = (if (0::int) + 2 \<le> 0 \<and> 0 < 0 + 2 + int 2
          then fp_add ieee (getCount 0 [0x1, 0x2, d_one, 0, 0] 2) (getCount 0 [0x300000001, 0x200000000, 0x4010000000000000, 0x400000000, d_two] 2)
          else getCount 0 [0x1, 0x2, d_one, 0, 0] 2)"
    by (rule s[OF r0])
  have s1: "getCount 1 (fst (combineTree_launch 2 [0x1, 0x2, d_one, 0, 0] [0x300000001, 0x200000000, 0x4010000000000000, 0x400000000, d_two] 2 2 0 2)) 2
       = (if (0::int) + 2 \<le> 1 \<and> 1 < 0 + 2 + int 2
          then fp_add ieee (getCount 1 [0x1, 0x2, d_one, 0, 0] 2) (getCount 1 [0x300000001, 0x200000000, 0x4010000000000000, 0x400000000, d_two] 2)
          else getCount 1 [0x1, 0x2, d_one, 0, 0] 2)"
    by (rule s[OF r1])
  have s2: "getCount 2 (fst (combineTree_launch 2 [0x1, 0x2, d_one, 0, 0] [0x300000001, 0x200000000, 0x4010000000000000, 0x400000000, d_two] 2 2 0 2)) 2
       = (if (0::int) + 2 \<le> 2 \<and> 2 < 0 + 2 + int 2
          then fp_add ieee (getCount 2 [0x1, 0x2, d_one, 0, 0] 2) (getCount 2 [0x300000001, 0x200000000, 0x4010000000000000, 0x400000000, d_two] 2)
          else getCount 2 [0x1, 0x2, d_one, 0, 0] 2)"
    by (rule s[OF r2])
  have s3: "getCount 3 (fst (combineTree_launch 2 [0x1, 0x2, d_one, 0, 0] [0x300000001, 0x200000000, 0x4010000000000000, 0x400000000, d_two] 2 2 0 2)) 2
       = (if (0::int) + 2 \<le> 3 \<and> 3 < 0 + 2 + int 2
          then fp_add ieee (getCount 3 [0x1, 0x2, d_one, 0, 0] 2) (getCount 3 [0x300000001, 0x200000000, 0x4010000000000000, 0x400000000, d_two] 2)
          else getCount 3 [0x1, 0x2, d_one, 0, 0] 2)"
    by (rule s[OF r3])
  have g1: "map (\<lambda>aid. getCount aid [0x1, 0x2, d_one, 0, 0] 2) [0, 1, 2, 3] = [d_one, d_zero, d_zero, d_zero]"
    by code_simp
  have g2: "map (\<lambda>aid. getCount aid [0x300000001, 0x200000000, 0x4010000000000000, 0x400000000, d_two] 2) [0, 1, 2, 3]
       = [d_zero, 0x4010000000000000, d_zero, d_two]"
    by code_simp
  have g3: "map (\<lambda>aid. getCount aid [0x300000001, 0x2, d_one, 0x400000000, d_two] 2) [0, 1, 2, 3] = [d_one, d_zero, d_zero, d_two]"
    by code_simp
  have u: "combineTree_launch 2 [0x1, 0x2, d_one, 0, 0] [0, 0, 0, 0, 0] 2 2 0 2 = ([0x1, 0x2, d_one, 0, 0], 2)"
    by (rule mp[OF combineTree_launch_sum[OF h1 h2z h3 h4 h5z, THEN conjunct2] h6])
  from h1 h2 e s0 s1 s2 s3 g1 g2 g3 u show ?thesis by (intro conjI)
qed

end
